theory Spec2Isabelle
  imports Main "HOL-Library.Word"
begin

section \<open>The chained hash table of \<open>hash_table.c\<close>\<close>

text \<open>
  A shallow embedding of \<open>hash_table.c\<close>: the djb2 hash, the bucket index, construction,
  insert, get and delete. The platform is LP64 with a signed \<open>char\<close> (x86-64 Linux):
  \<open>int\<close> is a 32-bit word read with \<open>sint\<close>, \<open>unsigned long\<close> a 64-bit word, \<open>char\<close> an
  8-bit word that converts to \<open>int\<close> by sign extension.
\<close>

subsection \<open>Data\<close>

type_synonym byte = "8 word"
type_synonym c_int = "32 word"
type_synonym c_ulong = "64 word"

text \<open>
  A \<open>const char*\<close> argument is the list of bytes it points at. Reading stops at the first
  zero byte; the end of the list stands for the terminating NUL as well. \<open>cstr\<close> is the
  string such a pointer designates.
\<close>

type_synonym cstring = "byte list"

definition cstr :: "cstring \<Rightarrow> cstring" where
  "cstr s = takeWhile (\<lambda>b. b \<noteq> 0) s"

text \<open>A \<open>void*\<close> value: the null pointer or an address the table never looks behind.\<close>

datatype voidptr = NULL | Addr nat

text \<open>
  \<open>struct KeyValuePair\<close>. The \<open>next\<close> field is the tail of the list that holds the node:
  a bucket's chain is a \<open>KeyValuePair list\<close>, \<open>[]\<close> being the \<open>NULL\<close> head. No node is
  shared between chains.
\<close>

record KeyValuePair =
  kv_key :: cstring
  kv_value :: voidptr

type_synonym chain = "KeyValuePair list"

text \<open>\<open>struct HashTable\<close>: \<open>ht_array\<close> holds the buckets that have been initialised.\<close>

record HashTable =
  ht_capacity :: c_int
  ht_array :: "chain list"
  ht_size :: c_int

text \<open>
  What C leaves undefined and the code does not guard against: the \<open>%\<close> of \<open>getIndex\<close>
  with a zero divisor, a bucket access outside the initialised buckets, and overflow of
  the signed counter \<open>size\<close>.
\<close>

datatype fault = DivisionByZero | OutOfBounds | SignedOverflow

subsection \<open>Library functions\<close>

text \<open>
  \<open>strcmp\<close> of the C library: the difference of the first pair of bytes that differ, read
  as \<open>unsigned char\<close>, and 0 when both strings end together.
\<close>

fun strcmp :: "cstring \<Rightarrow> cstring \<Rightarrow> int" where
  "strcmp [] [] = 0"
| "strcmp [] (y # ys) = - uint y"
| "strcmp (x # xs) [] = uint x"
| "strcmp (x # xs) (y # ys) =
     (if x \<noteq> y then uint x - uint y
      else if x = 0 then 0
      else strcmp xs ys)"

text \<open>\<open>strdup\<close> when it succeeds: a fresh copy of the string up to its terminator.\<close>

definition strdup :: "cstring \<Rightarrow> cstring" where
  "strdup s = cstr s"

subsection \<open>Hash function and bucket index\<close>

text \<open>
  \<open>hash\<close>, lines 48-62. The loop reads \<open>int c = *key++\<close> and stops when \<open>c\<close> is 0;
  \<open>hash + c\<close> converts the \<open>int\<close> to \<open>unsigned long\<close>.
\<close>

fun hash_loop :: "c_ulong \<Rightarrow> cstring \<Rightarrow> c_ulong" where
  "hash_loop h [] = h"
| "hash_loop h (b # key) =
     (let c = (scast b :: c_int) in
      if c = 0 then h
      else hash_loop (((push_bit 5 h) + h) + (scast c :: c_ulong)) key)"

definition hash :: "cstring \<Rightarrow> c_ulong" where
  "hash key = hash_loop 5381 key"

text \<open>
  \<open>getIndex\<close>, lines 74-77: \<open>hashValue % ht->capacity\<close> is computed in \<open>unsigned long\<close>
  (the \<open>int\<close> capacity is sign-extended), and the result is converted to \<open>int\<close>.
\<close>

definition getIndex :: "HashTable \<Rightarrow> cstring \<Rightarrow> fault + c_int" where
  "getIndex ht key =
     (let hashValue = hash key;
          d = (scast (ht_capacity ht) :: c_ulong)
      in if d = 0 then Inl DivisionByZero
         else Inr (ucast (hashValue mod d) :: c_int))"

text \<open>The access \<open>ht->array[index]\<close>.\<close>

definition bucket_at :: "HashTable \<Rightarrow> c_int \<Rightarrow> fault + chain" where
  "bucket_at ht idx =
     (if 0 \<le> sint idx \<and> nat (sint idx) < length (ht_array ht)
      then Inr (ht_array ht ! nat (sint idx))
      else Inl OutOfBounds)"

subsection \<open>Construction\<close>

text \<open>The loop of lines 107-109, setting one bucket after the other to \<open>NULL\<close>.\<close>

function init_buckets :: "int \<Rightarrow> int \<Rightarrow> chain list \<Rightarrow> chain list" where
  "init_buckets i cap arr =
     (if i < cap then init_buckets (i + 1) cap (arr @ [[]]) else arr)"
  by pat_completeness auto
termination
  by (relation "measure (\<lambda>(i, cap, arr). nat (cap - i))") auto

text \<open>
  \<open>createHashTable\<close>, lines 88-112. The two booleans say whether the allocator has
  memory for the first and for the second \<open>malloc\<close>; \<open>None\<close> is the \<open>NULL\<close> result. The
  capacity is stored as it comes. The size of the second request,
  \<open>capacity * sizeof(KeyValuePair*)\<close>, is computed in \<open>size_t\<close>, 64 bits wide with
  8-byte pointers: the \<open>int\<close> capacity is sign-extended and the product wraps around.
  A request above \<open>PTRDIFF_MAX\<close>, which is \<open>2^63 - 1\<close> bytes, exceeds the address space
  and fails with every allocator, whatever memory is free.
\<close>

definition createHashTable :: "bool \<Rightarrow> bool \<Rightarrow> c_int \<Rightarrow> HashTable option" where
  "createHashTable malloc_ht malloc_array cap =
     (if \<not> malloc_ht then None
      else let request = (scast cap :: c_ulong) * 8
        in if \<not> malloc_array \<or> 9223372036854775807 < uint request then None
           else Some \<lparr>ht_capacity = cap,
                      ht_array = init_buckets 0 (sint cap) [],
                      ht_size = 0\<rparr>)"

subsection \<open>Insert, get, delete\<close>

text \<open>
  The scan of \<open>insert\<close>, lines 131-138: the first node whose key compares equal gets the
  new value; \<open>None\<close> when the chain ends without a match.
\<close>

fun insert_scan :: "chain \<Rightarrow> cstring \<Rightarrow> voidptr \<Rightarrow> chain option" where
  "insert_scan [] key v = None"
| "insert_scan (current # rest) key v =
     (if strcmp (kv_key current) key = 0
      then Some (current\<lparr>kv_value := v\<rparr> # rest)
      else map_option ((#) current) (insert_scan rest key v))"

text \<open>
  \<open>insert\<close>, lines 125-160. \<open>malloc_ok\<close> and \<open>strdup_ok\<close> say whether the two allocations
  of a new node succeed. The result is the returned \<open>bool\<close> and the table afterwards.
\<close>

definition insert_ht ::
  "bool \<Rightarrow> bool \<Rightarrow> HashTable \<Rightarrow> cstring \<Rightarrow> voidptr \<Rightarrow> fault + (bool \<times> HashTable)" where
  "insert_ht malloc_ok strdup_ok ht key v =
     (case getIndex ht key of
        Inl f \<Rightarrow> Inl f
      | Inr idx \<Rightarrow>
          (case bucket_at ht idx of
             Inl f \<Rightarrow> Inl f
           | Inr head \<Rightarrow>
               (case insert_scan head key v of
                  Some updated \<Rightarrow>
                    Inr (True, ht\<lparr>ht_array := (ht_array ht)[nat (sint idx) := updated]\<rparr>)
                | None \<Rightarrow>
                    if \<not> malloc_ok then Inr (False, ht)
                    else if \<not> strdup_ok then Inr (False, ht)
                    else if sint (ht_size ht) = 2147483647 then Inl SignedOverflow
                    else Inr (True,
                      ht\<lparr>ht_array := (ht_array ht)
                            [nat (sint idx) := \<lparr>kv_key = strdup key, kv_value = v\<rparr> # head],
                         ht_size := ht_size ht + 1\<rparr>))))"

text \<open>The scan of \<open>get\<close>, lines 175-184.\<close>

fun get_scan :: "chain \<Rightarrow> cstring \<Rightarrow> voidptr" where
  "get_scan [] key = NULL"
| "get_scan (current # rest) key =
     (if strcmp (kv_key current) key = 0 then kv_value current
      else get_scan rest key)"

text \<open>\<open>get\<close>, lines 169-185. It writes nothing, so the result is the returned pointer only.\<close>

definition get :: "HashTable \<Rightarrow> cstring \<Rightarrow> fault + voidptr" where
  "get ht key =
     (case getIndex ht key of
        Inl f \<Rightarrow> Inl f
      | Inr idx \<Rightarrow>
          (case bucket_at ht idx of
             Inl f \<Rightarrow> Inl f
           | Inr head \<Rightarrow> Inr (get_scan head key)))"

text \<open>
  The scan of \<open>delete\<close>, lines 202-224: the first node whose key compares equal is
  unlinked, from the bucket head or from its predecessor; \<open>None\<close> when there is none.
\<close>

fun delete_scan :: "chain \<Rightarrow> cstring \<Rightarrow> chain option" where
  "delete_scan [] key = None"
| "delete_scan (current # rest) key =
     (if strcmp (kv_key current) key = 0 then Some rest
      else map_option ((#) current) (delete_scan rest key))"

text \<open>\<open>delete\<close>, lines 194-228.\<close>

definition delete :: "HashTable \<Rightarrow> cstring \<Rightarrow> fault + (bool \<times> HashTable)" where
  "delete ht key =
     (case getIndex ht key of
        Inl f \<Rightarrow> Inl f
      | Inr idx \<Rightarrow>
          (case bucket_at ht idx of
             Inl f \<Rightarrow> Inl f
           | Inr head \<Rightarrow>
               (case delete_scan head key of
                  Some unlinked \<Rightarrow>
                    if sint (ht_size ht) = - 2147483648 then Inl SignedOverflow
                    else Inr (True,
                      ht\<lparr>ht_array := (ht_array ht)[nat (sint idx) := unlinked],
                         ht_size := ht_size ht - 1\<rparr>)
                | None \<Rightarrow> Inr (False, ht))))"

subsection \<open>Notions used to state the properties\<close>

text \<open>
  The hash as the specification words it: the accumulator starts at 5381 and each byte
  \<open>c\<close> of the string, in order, turns it into \<open>accumulator * 33 + c\<close>, in 64-bit
  wrap-around arithmetic. The byte enters with its value from 0 to 255.
\<close>

definition djb2 :: "cstring \<Rightarrow> c_ulong" where
  "djb2 s = foldl (\<lambda>accumulator c. accumulator * 33 + ucast c) 5381 s"

text \<open>The bucket index as the specification words it: \<open>hash(key) mod capacity\<close>.\<close>

definition bucket_no :: "HashTable \<Rightarrow> cstring \<Rightarrow> nat" where
  "bucket_no ht key = nat (uint (hash key) mod sint (ht_capacity ht))"

text \<open>All entries of the table, bucket after bucket, each chain from its head.\<close>

definition entries :: "HashTable \<Rightarrow> KeyValuePair list" where
  "entries ht = concat (ht_array ht)"

text \<open>The table contains a key when some entry's key compares equal to it.\<close>

definition contains :: "HashTable \<Rightarrow> cstring \<Rightarrow> bool" where
  "contains ht key = list_ex (\<lambda>e. strcmp (kv_key e) key = 0) (entries ht)"

text \<open>Each key string is the key of at most one entry of the whole table.\<close>

definition unique_keys :: "HashTable \<Rightarrow> bool" where
  "unique_keys ht = distinct (map (\<lambda>e. cstr (kv_key e)) (entries ht))"

text \<open>
  The tables of the data model: a positive capacity, as many buckets as the capacity,
  every entry in the bucket its key hashes to, no key twice in a chain, and \<open>size\<close>
  counting the entries. These are the tables that \<open>createHashTable\<close> with a positive
  capacity, \<open>insert\<close> and \<open>delete\<close> produce (lemma \<open>reachable_valid\<close> below).
\<close>

definition valid_table :: "HashTable \<Rightarrow> bool" where
  "valid_table ht \<longleftrightarrow>
     0 < sint (ht_capacity ht) \<and>
     length (ht_array ht) = nat (sint (ht_capacity ht)) \<and>
     (\<forall>i < length (ht_array ht).
        (\<forall>e \<in> set (ht_array ht ! i). bucket_no ht (kv_key e) = i) \<and>
        distinct (map (\<lambda>e. cstr (kv_key e)) (ht_array ht ! i))) \<and>
     sint (ht_size ht) = int (length (entries ht))"

text \<open>
  A caller's sequence of operations. An operation that ends in undefined behaviour ends
  the run.
\<close>

datatype operation =
  Insert bool bool cstring voidptr
| Get cstring
| Delete cstring

fun run_op :: "HashTable \<Rightarrow> operation \<Rightarrow> fault + HashTable" where
  "run_op ht (Insert malloc_ok strdup_ok key v) =
     (case insert_ht malloc_ok strdup_ok ht key v of
        Inl f \<Rightarrow> Inl f | Inr (ok, ht') \<Rightarrow> Inr ht')"
| "run_op ht (Get key) =
     (case get ht key of Inl f \<Rightarrow> Inl f | Inr v \<Rightarrow> Inr ht)"
| "run_op ht (Delete key) =
     (case delete ht key of Inl f \<Rightarrow> Inl f | Inr (ok, ht') \<Rightarrow> Inr ht')"

fun run_ops :: "HashTable \<Rightarrow> operation list \<Rightarrow> fault + HashTable" where
  "run_ops ht [] = Inr ht"
| "run_ops ht (x # xs) =
     (case run_op ht x of Inl f \<Rightarrow> Inl f | Inr ht' \<Rightarrow> run_ops ht' xs)"

text \<open>An operation writes to a key when it inserts or deletes a key that compares equal.\<close>

fun writes_key :: "cstring \<Rightarrow> operation \<Rightarrow> bool" where
  "writes_key key (Insert malloc_ok strdup_ok key' v) = (strcmp key' key = 0)"
| "writes_key key (Get key') = False"
| "writes_key key (Delete key') = (strcmp key' key = 0)"

text \<open>
  The tables a caller can obtain: from \<open>createHashTable\<close>, and from a table obtained
  before by an \<open>insert\<close> or a \<open>delete\<close> that returns. (\<open>get\<close> leaves the table as it is.)
\<close>

inductive reachable :: "HashTable \<Rightarrow> bool" where
  created: "createHashTable malloc_ht malloc_array cap = Some ht \<Longrightarrow> reachable ht"
| inserted: "reachable ht \<Longrightarrow> insert_ht malloc_ok strdup_ok ht key v = Inr (ok, ht')
             \<Longrightarrow> reachable ht'"
| deleted: "reachable ht \<Longrightarrow> delete ht key = Inr (ok, ht') \<Longrightarrow> reachable ht'"

text \<open>
  The keys \<open>"key1"\<close>, \<open>"key2"\<close>, \<open>"key3"\<close> of the usage example that closes the file
  (lines 279-314), and a table holding them with two buckets, so that two of them
  collide: \<open>"key3"\<close>, inserted last, heads the chain before \<open>"key1"\<close>.
\<close>

definition key1 :: cstring where "key1 = [107, 101, 121, 49]"
definition key2 :: cstring where "key2 = [107, 101, 121, 50]"
definition key3 :: cstring where "key3 = [107, 101, 121, 51]"

definition usage_table :: HashTable where
  "usage_table =
     \<lparr>ht_capacity = 2,
      ht_array = [[\<lparr>kv_key = key2, kv_value = Addr 200\<rparr>],
                  [\<lparr>kv_key = key3, kv_value = Addr 300\<rparr>,
                   \<lparr>kv_key = key1, kv_value = Addr 100\<rparr>]],
      ht_size = 3\<rparr>"

subsection \<open>Conversions between the integer types\<close>

lemma sint_char_to_int: "sint (scast (b::byte) :: c_int) = sint b"
  by (rule sint_up_scast) (simp add: is_up)

lemma scast_char_zero: "((scast (b::byte)) :: c_int) = 0 \<longleftrightarrow> b = 0"
proof
  assume "(scast b :: c_int) = 0"
  then have "sint (scast b :: c_int) = 0" by simp
  then have "sint b = 0" by (simp only: sint_char_to_int)
  then show "b = 0" by (simp only: signed_eq_0_iff)
next
  assume "b = 0" then show "(scast b :: c_int) = 0" by simp
qed

lemma scast_scast_char: "(scast ((scast (b::byte)) :: c_int) :: c_ulong) = scast b"
  by (rule scast_up_scast) (simp add: is_up)

lemma uint_scast_capacity:
  fixes c :: c_int
  assumes "0 < sint c"
  shows "uint (scast c :: c_ulong) = sint c"
proof -
  have "sint c < 2 ^ 31" using sint_lt [of c] by simp
  then have lt: "sint c < 2 ^ 64" by simp
  have "uint (scast c :: c_ulong) = take_bit LENGTH(64) (sint c)"
    by (simp only: scast_eq uint_word_of_int_eq)
  also have "\<dots> = take_bit 64 (sint c)" by simp
  also have "\<dots> = sint c"
    using assms lt by (simp only: take_bit_int_eq_self less_imp_le)
  finally show ?thesis .
qed

lemma sint_ucast_small:
  fixes r :: c_ulong
  assumes "uint r < 2 ^ 31"
  shows "sint (ucast r :: c_int) = uint r"
proof -
  have ge: "- (2 ^ 31) \<le> uint r"
    by (rule order_trans [of _ 0]) simp_all
  have "sint (ucast r :: c_int) = signed_take_bit (LENGTH(32) - 1) (uint r)"
    by (simp only: ucast_eq sint_sbintrunc')
  also have "\<dots> = signed_take_bit 31 (uint r)" by simp
  also have "\<dots> = uint r"
    by (rule signed_take_bit_int_eq_self [OF ge assms])
  finally show ?thesis .
qed

lemma sint_succ:
  fixes n :: c_int
  assumes "sint n \<noteq> 2147483647"
  shows "sint (n + 1) = sint n + 1"
proof -
  have "sint n < 2 ^ 31" using sint_lt [of n] by simp
  with assms have up: "sint n + 1 < 2 ^ 31" by simp
  have "- (2 ^ 31) \<le> sint n" using sint_ge [of n] by simp
  then have lo: "- (2 ^ 31) \<le> sint n + 1" by simp
  have "sint (n + 1) = signed_take_bit (LENGTH(32) - 1) (sint n + sint (1 :: c_int))"
    by (simp only: sint_word_ariths)
  also have "\<dots> = signed_take_bit 31 (sint n + 1)" by simp
  also have "\<dots> = sint n + 1"
    by (rule signed_take_bit_int_eq_self [OF lo up])
  finally show ?thesis .
qed

lemma sint_pred:
  fixes n :: c_int
  assumes "sint n \<noteq> - 2147483648"
  shows "sint (n - 1) = sint n - 1"
proof -
  have "sint n < 2 ^ 31" using sint_lt [of n] by simp
  then have up: "sint n - 1 < 2 ^ 31" by simp
  have "- (2 ^ 31) \<le> sint n" using sint_ge [of n] by simp
  with assms have lo: "- (2 ^ 31) \<le> sint n - 1" by simp
  have "sint (n - 1) = signed_take_bit (LENGTH(32) - 1) (sint n - sint (1 :: c_int))"
    by (simp only: sint_word_ariths)
  also have "\<dots> = signed_take_bit 31 (sint n - 1)" by simp
  also have "\<dots> = sint n - 1"
    by (rule signed_take_bit_int_eq_self [OF lo up])
  finally show ?thesis .
qed

lemma array_request_size:
  fixes cap :: c_int
  shows "uint ((scast cap :: c_ulong) * 8) =
           (if sint cap < 0 then 2 ^ 64 + 8 * sint cap else 8 * sint cap)"
proof -
  have up: "sint cap < 2 ^ 31" using sint_lt [of cap] by simp
  have lo: "- (2 ^ 31) \<le> sint cap" using sint_ge [of cap] by simp
  have "(scast cap :: c_ulong) * 8 = word_of_int (sint cap) * word_of_int 8"
    by (simp only: scast_eq word_of_int_numeral)
  also have "\<dots> = word_of_int (sint cap * 8)"
    by (simp only: wi_hom_mult)
  finally have "uint ((scast cap :: c_ulong) * 8) = uint (word_of_int (sint cap * 8) :: c_ulong)"
    by (rule arg_cong)
  also have "\<dots> = (sint cap * 8) mod 2 ^ LENGTH(64)"
    by (rule uint_word_of_int)
  finally have u: "uint ((scast cap :: c_ulong) * 8) = (sint cap * 8) mod 2 ^ 64" by simp
  show ?thesis
  proof (cases "sint cap < 0")
    case True
    have "(sint cap * 8) mod 2 ^ 64 = (sint cap * 8 + 2 ^ 64) mod 2 ^ 64" by simp
    also have "\<dots> = sint cap * 8 + 2 ^ 64"
      using True lo by (intro mod_pos_pos_trivial) simp_all
    finally show ?thesis using True u by simp
  next
    case False
    then have "(sint cap * 8) mod 2 ^ 64 = sint cap * 8"
      using up by (intro mod_pos_pos_trivial) simp_all
    with False u show ?thesis by simp
  qed
qed

lemma array_request_too_large:
  fixes cap :: c_int
  shows "9223372036854775807 < uint ((scast cap :: c_ulong) * 8) \<longleftrightarrow> sint cap < 0"
proof -
  have up: "sint cap < 2 ^ 31" using sint_lt [of cap] by simp
  have lo: "- (2 ^ 31) \<le> sint cap" using sint_ge [of cap] by simp
  from up lo show ?thesis by (simp add: array_request_size)
qed

lemma scast_low_byte:
  fixes c :: byte
  assumes "c < 128"
  shows "(scast c :: c_ulong) = ucast c"
proof -
  from assms have "uint c < 128" by (simp add: word_less_def)
  then have up: "uint c < 2 ^ 7" by simp
  have lo: "- (2 ^ 7) \<le> uint c" by (rule order_trans [of _ 0]) simp_all
  have "sint c = signed_take_bit (LENGTH(8) - Suc 0) (uint c)"
    by (simp only: sint_uint)
  also have "\<dots> = signed_take_bit 7 (uint c)" by simp
  also have "\<dots> = uint c" by (rule signed_take_bit_int_eq_self [OF lo up])
  finally have "sint c = uint c" .
  then show ?thesis by (simp only: scast_eq ucast_eq)
qed

subsection \<open>Strings and the hash\<close>

lemma cstr_Nil [simp]: "cstr [] = []"
  by (simp add: cstr_def)

lemma cstr_Cons: "cstr (b # s) = (if b = 0 then [] else b # cstr s)"
  by (simp add: cstr_def)

lemma cstr_idem [simp]: "cstr (cstr s) = cstr s"
  by (induction s) (simp_all add: cstr_Cons)

lemma strcmp_0_iff: "strcmp a b = 0 \<longleftrightarrow> cstr a = cstr b"
proof (induction a b rule: strcmp.induct)
  case 1
  show ?case by simp
next
  case (2 y ys)
  show ?case by (simp add: cstr_Cons unsigned_eq_0_iff)
next
  case (3 x xs)
  show ?case by (simp add: cstr_Cons unsigned_eq_0_iff)
next
  case (4 x xs y ys)
  show ?case
  proof (cases "x = y")
    case False
    then have "uint x \<noteq> uint y" by (simp add: word_uint_eq_iff)
    then have "uint x - uint y \<noteq> 0" by simp
    with False show ?thesis by (auto simp: cstr_Cons)
  next
    case True
    with 4 show ?thesis by (simp add: cstr_Cons)
  qed
qed

lemma hash_step: "push_bit 5 (h::c_ulong) + h = h * 33"
  by (simp add: push_bit_eq_mult)

lemma hash_loop_Cons:
  "hash_loop h (b # key) = (if b = 0 then h else hash_loop (h * 33 + scast b) key)"
  by (simp only: hash_loop.simps Let_def scast_char_zero scast_scast_char hash_step)

lemma hash_loop_foldl:
  "hash_loop h key = foldl (\<lambda>acc c. acc * 33 + scast c) h (cstr key)"
proof (induction key arbitrary: h)
  case Nil
  show ?case by simp
next
  case (Cons b key)
  show ?case by (simp only: hash_loop_Cons cstr_Cons Cons.IH foldl.simps split: if_split) simp
qed

lemma hash_cstr: "hash (cstr key) = hash key"
  by (simp add: hash_def hash_loop_foldl)

lemma hash_cong: "cstr a = cstr b \<Longrightarrow> hash a = hash b"
  by (metis hash_cstr)

lemma bucket_no_cong: "cstr a = cstr b \<Longrightarrow> bucket_no ht a = bucket_no ht b"
  by (simp add: bucket_no_def hash_cong [of a b])

subsection \<open>The bucket index of a table with positive capacity\<close>

lemma getIndex_pos:
  assumes "0 < sint (ht_capacity ht)"
  shows "\<exists>idx. getIndex ht key = Inr idx
           \<and> sint idx = uint (hash key) mod sint (ht_capacity ht)"
proof -
  let ?c = "ht_capacity ht"
  let ?d = "scast ?c :: c_ulong"
  have d: "uint ?d = sint ?c" using assms by (rule uint_scast_capacity)
  with assms have "?d \<noteq> 0" by auto
  have "uint (hash key mod ?d) = uint (hash key) mod sint ?c"
    by (simp add: uint_mod d)
  moreover have "uint (hash key) mod sint ?c < sint ?c"
    using assms by simp
  moreover have "sint ?c < 2 ^ 31" using sint_lt [of ?c] by simp
  ultimately have "sint (ucast (hash key mod ?d) :: c_int) = uint (hash key) mod sint ?c"
    using sint_ucast_small [of "hash key mod ?d"] by simp
  with \<open>?d \<noteq> 0\<close> show ?thesis by (simp add: getIndex_def Let_def)
qed

lemma bucket_no_less: "0 < sint (ht_capacity ht) \<Longrightarrow> bucket_no ht key < nat (sint (ht_capacity ht))"
  by (simp add: bucket_no_def nat_less_iff)

lemma bucket_lookup:
  assumes "0 < sint (ht_capacity ht)"
    and "length (ht_array ht) = nat (sint (ht_capacity ht))"
  shows "\<exists>idx. getIndex ht key = Inr idx \<and> nat (sint idx) = bucket_no ht key
           \<and> bucket_at ht idx = Inr (ht_array ht ! bucket_no ht key)"
proof -
  from getIndex_pos [OF assms(1), of key] obtain idx where
    idx: "getIndex ht key = Inr idx" "sint idx = uint (hash key) mod sint (ht_capacity ht)"
    by blast
  then have n: "nat (sint idx) = bucket_no ht key" by (simp add: bucket_no_def)
  have "0 \<le> sint idx" using idx(2) assms(1) by simp
  moreover have "nat (sint idx) < length (ht_array ht)"
    using n bucket_no_less [OF assms(1), of key] assms(2) by simp
  ultimately have "bucket_at ht idx = Inr (ht_array ht ! bucket_no ht key)"
    by (simp add: bucket_at_def n)
  with idx(1) n show ?thesis by blast
qed

lemma uint_djb2_step:
  fixes a :: c_ulong and c :: byte
  shows "uint (a * 33 + scast c) = (uint a * 33 + sint c) mod 2 ^ 64"
proof -
  have "a * 33 + scast c = word_of_int (uint a) * word_of_int 33 + word_of_int (sint c)"
    by (simp only: scast_eq word_of_int_uint word_of_int_numeral)
  also have "\<dots> = word_of_int (uint a * 33 + sint c)"
    by (simp only: wi_hom_add wi_hom_mult)
  finally have "uint (a * 33 + scast c) = uint (word_of_int (uint a * 33 + sint c) :: c_ulong)"
    by (rule arg_cong)
  also have "\<dots> = (uint a * 33 + sint c) mod 2 ^ LENGTH(64)"
    by (rule uint_word_of_int)
  finally show ?thesis by simp
qed

lemma hash_low_bytes:
  assumes "\<forall>c \<in> set (cstr key). c < 128"
  shows "hash key = djb2 (cstr key)"
proof -
  have "foldl (\<lambda>acc c. acc * 33 + scast c) h s = foldl (\<lambda>acc c. acc * 33 + ucast c) h s"
    if "\<forall>c \<in> set s. c < 128" for h :: c_ulong and s :: cstring
    using that by (induction s arbitrary: h) (simp_all add: scast_low_byte)
  from this [OF assms] show ?thesis
    by (simp add: hash_def djb2_def hash_loop_foldl)
qed

subsection \<open>The operations on a table with as many buckets as its positive capacity\<close>

lemma get_valid_shape:
  assumes "0 < sint (ht_capacity ht)"
    and "length (ht_array ht) = nat (sint (ht_capacity ht))"
  shows "get ht key = Inr (get_scan (ht_array ht ! bucket_no ht key) key)"
  using bucket_lookup [OF assms, of key] by (auto simp: get_def)

lemma insert_valid_shape:
  assumes "0 < sint (ht_capacity ht)"
    and "length (ht_array ht) = nat (sint (ht_capacity ht))"
  shows "insert_ht malloc_ok strdup_ok ht key v =
     (case insert_scan (ht_array ht ! bucket_no ht key) key v of
        Some updated \<Rightarrow>
          Inr (True, ht\<lparr>ht_array := (ht_array ht)[bucket_no ht key := updated]\<rparr>)
      | None \<Rightarrow>
          if \<not> malloc_ok then Inr (False, ht)
          else if \<not> strdup_ok then Inr (False, ht)
          else if sint (ht_size ht) = 2147483647 then Inl SignedOverflow
          else Inr (True,
            ht\<lparr>ht_array := (ht_array ht)
                  [bucket_no ht key :=
                     \<lparr>kv_key = strdup key, kv_value = v\<rparr> # ht_array ht ! bucket_no ht key],
               ht_size := ht_size ht + 1\<rparr>))"
proof -
  from bucket_lookup [OF assms, of key] obtain idx where
    "getIndex ht key = Inr idx" "nat (sint idx) = bucket_no ht key"
    "bucket_at ht idx = Inr (ht_array ht ! bucket_no ht key)" by blast
  then show ?thesis by (simp add: insert_ht_def split: option.split)
qed

lemma delete_valid_shape:
  assumes "0 < sint (ht_capacity ht)"
    and "length (ht_array ht) = nat (sint (ht_capacity ht))"
  shows "delete ht key =
     (case delete_scan (ht_array ht ! bucket_no ht key) key of
        Some unlinked \<Rightarrow>
          if sint (ht_size ht) = - 2147483648 then Inl SignedOverflow
          else Inr (True,
            ht\<lparr>ht_array := (ht_array ht)[bucket_no ht key := unlinked],
               ht_size := ht_size ht - 1\<rparr>)
      | None \<Rightarrow> Inr (False, ht))"
proof -
  from bucket_lookup [OF assms, of key] obtain idx where
    "getIndex ht key = Inr idx" "nat (sint idx) = bucket_no ht key"
    "bucket_at ht idx = Inr (ht_array ht ! bucket_no ht key)" by blast
  then show ?thesis by (simp add: delete_def split: option.split)
qed

subsection \<open>The table of the usage example\<close>

lemma hash_key1: "hash key1 = 6385400191"
  by (simp add: hash_def key1_def)

lemma hash_key2: "hash key2 = 6385400192"
  by (simp add: hash_def key2_def)

lemma hash_key3: "hash key3 = 6385400193"
  by (simp add: hash_def key3_def)

lemma cstr_key1: "cstr key1 = key1"
  by (simp add: key1_def cstr_Cons)

lemma cstr_key2: "cstr key2 = key2"
  by (simp add: key2_def cstr_Cons)

lemma cstr_key3: "cstr key3 = key3"
  by (simp add: key3_def cstr_Cons)

lemma keys_differ:
  "key1 \<noteq> key2" "key1 \<noteq> key3" "key2 \<noteq> key3"
  "key2 \<noteq> key1" "key3 \<noteq> key1" "key3 \<noteq> key2"
  by (simp_all add: key1_def key2_def key3_def)

lemmas usage_eval =
  usage_table_def getIndex_def bucket_at_def hash_key1 hash_key2 hash_key3
  strcmp_0_iff cstr_key1 cstr_key2 cstr_key3 keys_differ

lemma bucket_no_usage:
  "bucket_no usage_table key1 = 1" "bucket_no usage_table key2 = 0"
  "bucket_no usage_table key3 = 1"
  by (simp_all add: bucket_no_def usage_table_def hash_key1 hash_key2 hash_key3)

lemma usage_table_valid: "valid_table usage_table"
proof -
  have "\<forall>i<2. (\<forall>e \<in> set (ht_array usage_table ! i). bucket_no usage_table (kv_key e) = i)
          \<and> distinct (map (\<lambda>e. cstr (kv_key e)) (ht_array usage_table ! i))"
    using keys_differ bucket_no_usage
    by (auto simp: less_2_cases_iff usage_table_def cstr_key1 cstr_key2 cstr_key3)
  then show ?thesis
    by (simp add: valid_table_def entries_def usage_table_def)
qed

subsection \<open>The scans of a chain\<close>

lemma get_scan_absent:
  "\<forall>e \<in> set ch. cstr (kv_key e) \<noteq> cstr key \<Longrightarrow> get_scan ch key = NULL"
  by (induction ch) (simp_all add: strcmp_0_iff)

lemma get_scan_present:
  assumes "distinct (map (\<lambda>e. cstr (kv_key e)) ch)"
    and "e \<in> set ch" and "cstr (kv_key e) = cstr key"
  shows "get_scan ch key = kv_value e"
  using assms by (induction ch) (force simp: strcmp_0_iff)+

lemma insert_scan_None_iff:
  "insert_scan ch key v = None \<longleftrightarrow> (\<forall>e \<in> set ch. cstr (kv_key e) \<noteq> cstr key)"
  by (induction ch) (simp_all add: strcmp_0_iff)

lemma insert_scan_Some:
  assumes "insert_scan ch key v = Some ch'"
  shows "\<exists>pre e post. ch = pre @ e # post \<and> ch' = pre @ e\<lparr>kv_value := v\<rparr> # post
           \<and> cstr (kv_key e) = cstr key
           \<and> (\<forall>x \<in> set pre. cstr (kv_key x) \<noteq> cstr key)"
  using assms
proof (induction ch arbitrary: ch')
  case Nil
  then show ?case by simp
next
  case (Cons a ch)
  show ?case
  proof (cases "cstr (kv_key a) = cstr key")
    case True
    with Cons.prems have "ch' = a\<lparr>kv_value := v\<rparr> # ch"
      by (simp add: strcmp_0_iff)
    with True have "a # ch = [] @ a # ch \<and> ch' = [] @ a\<lparr>kv_value := v\<rparr> # ch
        \<and> cstr (kv_key a) = cstr key \<and> (\<forall>x \<in> set []. cstr (kv_key x) \<noteq> cstr key)"
      by simp
    then show ?thesis by blast
  next
    case False
    with Cons.prems obtain r where r: "insert_scan ch key v = Some r" "ch' = a # r"
      by (auto simp: strcmp_0_iff)
    from Cons.IH [OF r(1)] obtain pre e post where
      s: "ch = pre @ e # post" "r = pre @ e\<lparr>kv_value := v\<rparr> # post"
         "cstr (kv_key e) = cstr key" "\<forall>x \<in> set pre. cstr (kv_key x) \<noteq> cstr key"
      by blast
    with False r(2) have "a # ch = (a # pre) @ e # post
        \<and> ch' = (a # pre) @ e\<lparr>kv_value := v\<rparr> # post
        \<and> cstr (kv_key e) = cstr key
        \<and> (\<forall>x \<in> set (a # pre). cstr (kv_key x) \<noteq> cstr key)"
      by simp
    then show ?thesis by blast
  qed
qed

lemma insert_scan_keys:
  "insert_scan ch key v = Some ch' \<Longrightarrow> map kv_key ch' = map kv_key ch"
  by (induction ch arbitrary: ch') (auto split: if_splits)

lemma insert_scan_length:
  "insert_scan ch key v = Some ch' \<Longrightarrow> length ch' = length ch"
  using insert_scan_keys [of ch key v ch'] by (metis length_map)

lemma insert_scan_get_same:
  "insert_scan ch key v = Some ch' \<Longrightarrow> get_scan ch' key = v"
  by (induction ch arbitrary: ch') (auto split: if_splits)

lemma insert_scan_get_other:
  "insert_scan ch key' v = Some ch' \<Longrightarrow> cstr key' \<noteq> cstr key
     \<Longrightarrow> get_scan ch' key = get_scan ch key"
  by (induction ch arbitrary: ch') (auto simp: strcmp_0_iff split: if_splits)

lemma delete_scan_None_iff:
  "delete_scan ch key = None \<longleftrightarrow> (\<forall>e \<in> set ch. cstr (kv_key e) \<noteq> cstr key)"
  by (induction ch) (simp_all add: strcmp_0_iff)

lemma delete_scan_Some:
  assumes "delete_scan ch key = Some ch'"
  shows "\<exists>pre e post. ch = pre @ e # post \<and> ch' = pre @ post
           \<and> cstr (kv_key e) = cstr key
           \<and> (\<forall>x \<in> set pre. cstr (kv_key x) \<noteq> cstr key)"
  using assms
proof (induction ch arbitrary: ch')
  case Nil
  then show ?case by simp
next
  case (Cons a ch)
  show ?case
  proof (cases "cstr (kv_key a) = cstr key")
    case True
    with Cons.prems have "ch' = ch" by (simp add: strcmp_0_iff)
    with True have "a # ch = [] @ a # ch \<and> ch' = [] @ ch
        \<and> cstr (kv_key a) = cstr key \<and> (\<forall>x \<in> set []. cstr (kv_key x) \<noteq> cstr key)"
      by simp
    then show ?thesis by blast
  next
    case False
    with Cons.prems obtain r where r: "delete_scan ch key = Some r" "ch' = a # r"
      by (auto simp: strcmp_0_iff)
    from Cons.IH [OF r(1)] obtain pre e post where
      s: "ch = pre @ e # post" "r = pre @ post"
         "cstr (kv_key e) = cstr key" "\<forall>x \<in> set pre. cstr (kv_key x) \<noteq> cstr key"
      by blast
    with False r(2) have "a # ch = (a # pre) @ e # post \<and> ch' = (a # pre) @ post
        \<and> cstr (kv_key e) = cstr key
        \<and> (\<forall>x \<in> set (a # pre). cstr (kv_key x) \<noteq> cstr key)"
      by simp
    then show ?thesis by blast
  qed
qed

lemma delete_scan_filter:
  assumes "delete_scan ch key = Some ch'"
    and "distinct (map (\<lambda>e. cstr (kv_key e)) ch)"
  shows "ch' = filter (\<lambda>e. cstr (kv_key e) \<noteq> cstr key) ch"
  using assms
proof (induction ch arbitrary: ch')
  case Nil
  then show ?case by simp
next
  case (Cons a ch)
  show ?case
  proof (cases "cstr (kv_key a) = cstr key")
    case True
    with Cons.prems(1) have "ch' = ch" by (simp add: strcmp_0_iff)
    moreover from True Cons.prems(2)
    have "\<forall>x \<in> set ch. cstr (kv_key x) \<noteq> cstr key" by force
    then have "filter (\<lambda>e. cstr (kv_key e) \<noteq> cstr key) ch = ch" by simp
    ultimately show ?thesis using True by simp
  next
    case False
    with Cons.prems(1) obtain r where r: "delete_scan ch key = Some r" "ch' = a # r"
      by (auto simp: strcmp_0_iff)
    from Cons.prems(2) have "distinct (map (\<lambda>e. cstr (kv_key e)) ch)" by simp
    from Cons.IH [OF r(1) this] r(2) False show ?thesis by simp
  qed
qed

lemma delete_scan_get_other:
  "delete_scan ch key' = Some ch' \<Longrightarrow> cstr key' \<noteq> cstr key
     \<Longrightarrow> get_scan ch' key = get_scan ch key"
  by (induction ch arbitrary: ch') (auto simp: strcmp_0_iff split: if_splits)

lemma delete_scan_length:
  "delete_scan ch key = Some ch' \<Longrightarrow> length ch = Suc (length ch')"
  by (induction ch arbitrary: ch') (auto split: if_splits)

subsection \<open>Valid tables\<close>

lemma bucket_no_array_update [simp]:
  "bucket_no (ht\<lparr>ht_array := a\<rparr>) key = bucket_no ht key"
  by (simp add: bucket_no_def)

lemma bucket_no_size_update [simp]:
  "bucket_no (ht\<lparr>ht_size := n\<rparr>) key = bucket_no ht key"
  by (simp add: bucket_no_def)

lemma valid_bucket_no_less:
  "valid_table ht \<Longrightarrow> bucket_no ht key < length (ht_array ht)"
  using bucket_no_less [of ht key] by (simp add: valid_table_def)

lemma valid_placed:
  "valid_table ht \<Longrightarrow> i < length (ht_array ht) \<Longrightarrow> e \<in> set (ht_array ht ! i)
     \<Longrightarrow> bucket_no ht (kv_key e) = i"
  by (simp add: valid_table_def)

lemma valid_chain_distinct:
  "valid_table ht \<Longrightarrow> i < length (ht_array ht)
     \<Longrightarrow> distinct (map (\<lambda>e. cstr (kv_key e)) (ht_array ht ! i))"
  by (simp add: valid_table_def)

lemma contains_iff:
  "contains ht key \<longleftrightarrow> (\<exists>e \<in> set (entries ht). cstr (kv_key e) = cstr key)"
  by (simp add: contains_def list_ex_iff strcmp_0_iff)

lemma contains_iff_bucket:
  assumes "valid_table ht"
  shows "contains ht key \<longleftrightarrow>
           (\<exists>e \<in> set (ht_array ht ! bucket_no ht key). cstr (kv_key e) = cstr key)"
proof
  assume "contains ht key"
  then obtain e where e: "e \<in> set (concat (ht_array ht))" "cstr (kv_key e) = cstr key"
    by (auto simp: contains_iff entries_def)
  then obtain ch where "ch \<in> set (ht_array ht)" "e \<in> set ch" by auto
  then obtain i where i: "i < length (ht_array ht)" "e \<in> set (ht_array ht ! i)"
    by (auto simp: in_set_conv_nth)
  from valid_placed [OF assms i] have "bucket_no ht (kv_key e) = i" .
  with bucket_no_cong [OF e(2), of ht] have "bucket_no ht key = i" by simp
  with i(2) e(2) show "\<exists>e \<in> set (ht_array ht ! bucket_no ht key). cstr (kv_key e) = cstr key"
    by blast
next
  assume "\<exists>e \<in> set (ht_array ht ! bucket_no ht key). cstr (kv_key e) = cstr key"
  then obtain e where e: "e \<in> set (ht_array ht ! bucket_no ht key)"
    "cstr (kv_key e) = cstr key" by blast
  from valid_bucket_no_less [OF assms, of key]
  have "ht_array ht ! bucket_no ht key \<in> set (ht_array ht)" by simp
  with e(1) have "e \<in> set (concat (ht_array ht))" by auto
  with e(2) show "contains ht key" by (auto simp: contains_iff entries_def)
qed

lemma length_concat_update:
  "i < length xs \<Longrightarrow>
     length (concat (xs[i := y])) + length (xs ! i) = length (concat xs) + length y"
proof (induction xs arbitrary: i)
  case Nil
  then show ?case by simp
next
  case (Cons x xs)
  then show ?case by (cases i) auto
qed

lemma init_buckets_replicate:
  "init_buckets i cap arr = arr @ replicate (nat (cap - i)) []"
proof (induction i cap arr rule: init_buckets.induct)
  case (1 i cap arr)
  show ?case
  proof (cases "i < cap")
    case True
    then have "nat (cap - i) = Suc (nat (cap - (i + 1)))" by simp
    with True 1 show ?thesis
      by (simp add: replicate_app_Cons_same del: init_buckets.simps
            add: init_buckets.simps [of i cap arr])
  next
    case False
    then show ?thesis by simp
  qed
qed

lemma createHashTable_eq:
  "createHashTable malloc_ht malloc_array cap =
     (if malloc_ht \<and> malloc_array \<and> 0 \<le> sint cap
      then Some \<lparr>ht_capacity = cap, ht_array = replicate (nat (sint cap)) [], ht_size = 0\<rparr>
      else None)"
  by (simp add: createHashTable_def Let_def array_request_too_large init_buckets_replicate
        not_less del: init_buckets.simps)

lemma concat_replicate_Nil: "concat (replicate n []) = []"
  by (induction n) simp_all

lemma created_valid:
  assumes "0 < sint cap" and "createHashTable malloc_ht malloc_array cap = Some ht"
  shows "valid_table ht"
  using assms
  by (auto simp: createHashTable_eq valid_table_def entries_def concat_replicate_Nil
           split: if_splits)

lemma valid_table_updateI:
  assumes v: "valid_table ht" and b: "b < length (ht_array ht)"
    and placed: "\<forall>e \<in> set ch. bucket_no ht (kv_key e) = b"
    and dist: "distinct (map (\<lambda>e. cstr (kv_key e)) ch)"
    and size: "sint n = int (length (concat ((ht_array ht)[b := ch])))"
  shows "valid_table (ht\<lparr>ht_array := (ht_array ht)[b := ch], ht_size := n\<rparr>)"
proof -
  let ?ht' = "ht\<lparr>ht_array := (ht_array ht)[b := ch], ht_size := n\<rparr>"
  have cap: "0 < sint (ht_capacity ?ht')" using v by (simp add: valid_table_def)
  have len: "length (ht_array ?ht') = nat (sint (ht_capacity ?ht'))"
    using v by (simp add: valid_table_def)
  have chains: "\<forall>i < length (ht_array ?ht').
        (\<forall>e \<in> set (ht_array ?ht' ! i). bucket_no ?ht' (kv_key e) = i) \<and>
        distinct (map (\<lambda>e. cstr (kv_key e)) (ht_array ?ht' ! i))"
  proof (intro allI impI)
    fix i assume "i < length (ht_array ?ht')"
    then have i: "i < length (ht_array ht)" by simp
    show "(\<forall>e \<in> set (ht_array ?ht' ! i). bucket_no ?ht' (kv_key e) = i) \<and>
        distinct (map (\<lambda>e. cstr (kv_key e)) (ht_array ?ht' ! i))"
    proof (cases "i = b")
      case True
      with b placed dist show ?thesis by simp
    next
      case False
      with i valid_placed [OF v i] valid_chain_distinct [OF v i] show ?thesis by simp
    qed
  qed
  have "sint (ht_size ?ht') = int (length (entries ?ht'))"
    using size by (simp add: entries_def)
  with cap len chains show ?thesis unfolding valid_table_def by blast
qed

lemma insert_preserves_valid:
  assumes v: "valid_table ht"
    and ins: "insert_ht malloc_ok strdup_ok ht key v = Inr (ok, ht')"
  shows "valid_table ht'"
proof -
  let ?b = "bucket_no ht key"
  let ?ch = "ht_array ht ! ?b"
  from v have shape: "0 < sint (ht_capacity ht)"
    "length (ht_array ht) = nat (sint (ht_capacity ht))"
    by (simp_all add: valid_table_def)
  have b: "?b < length (ht_array ht)" by (rule valid_bucket_no_less [OF v])
  from v have sz: "sint (ht_size ht) = int (length (concat (ht_array ht)))"
    by (simp add: valid_table_def entries_def)
  note eq = insert_valid_shape [OF shape, of malloc_ok strdup_ok key v]
  show ?thesis
  proof (cases "insert_scan ?ch key v")
    case (Some updated)
    with eq ins have ht': "ht' = ht\<lparr>ht_array := (ht_array ht)[?b := updated]\<rparr>" by simp
    have keys: "map kv_key updated = map kv_key ?ch" by (rule insert_scan_keys [OF Some])
    then have "map cstr (map kv_key updated) = map cstr (map kv_key ?ch)" by simp
    then have dk: "map (\<lambda>e. cstr (kv_key e)) updated = map (\<lambda>e. cstr (kv_key e)) ?ch"
      by (simp add: comp_def)
    from keys have "set (map kv_key updated) = set (map kv_key ?ch)" by simp
    then have ks: "kv_key ` set updated = kv_key ` set ?ch" by simp
    have placed: "\<forall>e \<in> set updated. bucket_no ht (kv_key e) = ?b"
    proof
      fix e assume "e \<in> set updated"
      then have "kv_key e \<in> kv_key ` set ?ch" using ks by blast
      then obtain e' where "e' \<in> set ?ch" "kv_key e = kv_key e'" by auto
      with valid_placed [OF v b, of e'] show "bucket_no ht (kv_key e) = ?b" by simp
    qed
    have dist: "distinct (map (\<lambda>e. cstr (kv_key e)) updated)"
      using valid_chain_distinct [OF v b] dk by simp
    have len: "length (concat ((ht_array ht)[?b := updated])) = length (concat (ht_array ht))"
      using length_concat_update [OF b, of updated] insert_scan_length [OF Some] by simp
    have "sint (ht_size ht) = int (length (concat ((ht_array ht)[?b := updated])))"
      using sz len by simp
    from valid_table_updateI [OF v b placed dist this] ht' show ?thesis by simp
  next
    case None
    show ?thesis
    proof (cases "malloc_ok \<and> strdup_ok")
      case False
      with eq ins None have "ht' = ht" by (auto split: if_splits)
      with v show ?thesis by simp
    next
      case True
      let ?new = "\<lparr>kv_key = strdup key, kv_value = v\<rparr>"
      from True eq ins None have nmax: "sint (ht_size ht) \<noteq> 2147483647"
        and ht': "ht' = ht\<lparr>ht_array := (ht_array ht)[?b := ?new # ?ch],
                            ht_size := ht_size ht + 1\<rparr>"
        by (auto split: if_splits)
      have placed: "\<forall>e \<in> set (?new # ?ch). bucket_no ht (kv_key e) = ?b"
        using valid_placed [OF v b] bucket_no_cong [of "cstr key" key ht]
        by (auto simp: strdup_def)
      from None have "\<forall>e \<in> set ?ch. cstr (kv_key e) \<noteq> cstr key"
        by (simp add: insert_scan_None_iff)
      then have dist: "distinct (map (\<lambda>e. cstr (kv_key e)) (?new # ?ch))"
        using valid_chain_distinct [OF v b] by (auto simp: strdup_def)
      have len: "length (concat ((ht_array ht)[?b := ?new # ?ch]))
                   = Suc (length (concat (ht_array ht)))"
        using length_concat_update [OF b, of "?new # ?ch"] by simp
      have size': "sint (ht_size ht + 1) = int (Suc (length (concat (ht_array ht))))"
        using sint_succ [OF nmax] sz by simp
      have "sint (ht_size ht + 1)
              = int (length (concat ((ht_array ht)[?b := ?new # ?ch])))"
        using size' len by simp
      from valid_table_updateI [OF v b placed dist this] ht' show ?thesis by simp
    qed
  qed
qed

lemma delete_preserves_valid:
  assumes v: "valid_table ht" and del: "delete ht key = Inr (ok, ht')"
  shows "valid_table ht'"
proof -
  let ?b = "bucket_no ht key"
  let ?ch = "ht_array ht ! ?b"
  from v have shape: "0 < sint (ht_capacity ht)"
    "length (ht_array ht) = nat (sint (ht_capacity ht))"
    by (simp_all add: valid_table_def)
  have b: "?b < length (ht_array ht)" by (rule valid_bucket_no_less [OF v])
  from v have sz: "sint (ht_size ht) = int (length (concat (ht_array ht)))"
    by (simp add: valid_table_def entries_def)
  note eq = delete_valid_shape [OF shape, of key]
  show ?thesis
  proof (cases "delete_scan ?ch key")
    case None
    with eq del have "ht' = ht" by simp
    with v show ?thesis by simp
  next
    case (Some unlinked)
    with eq del have nmin: "sint (ht_size ht) \<noteq> - 2147483648"
      and ht': "ht' = ht\<lparr>ht_array := (ht_array ht)[?b := unlinked],
                          ht_size := ht_size ht - 1\<rparr>"
      by (auto split: if_splits)
    have f: "unlinked = filter (\<lambda>e. cstr (kv_key e) \<noteq> cstr key) ?ch"
      by (rule delete_scan_filter [OF Some valid_chain_distinct [OF v b]])
    have placed: "\<forall>e \<in> set unlinked. bucket_no ht (kv_key e) = ?b"
      using valid_placed [OF v b] by (simp add: f)
    have dist: "distinct (map (\<lambda>e. cstr (kv_key e)) unlinked)"
      using valid_chain_distinct [OF v b] by (simp add: f distinct_map_filter)
    have "length (concat ((ht_array ht)[?b := unlinked])) + length ?ch
            = length (concat (ht_array ht)) + length unlinked"
      by (rule length_concat_update [OF b])
    with delete_scan_length [OF Some]
    have len: "length (concat (ht_array ht))
                 = Suc (length (concat ((ht_array ht)[?b := unlinked])))"
      by simp
    have "sint (ht_size ht - 1) = int (length (concat ((ht_array ht)[?b := unlinked])))"
      using sint_pred [OF nmin] sz len by simp
    from valid_table_updateI [OF v b placed dist this] ht' show ?thesis by simp
  qed
qed

subsection \<open>The outcomes of insert and delete on a valid table\<close>

lemma valid_shape:
  "valid_table ht \<Longrightarrow> 0 < sint (ht_capacity ht)"
  "valid_table ht \<Longrightarrow> length (ht_array ht) = nat (sint (ht_capacity ht))"
  by (simp_all add: valid_table_def)

lemma insert_valid_cases:
  assumes v: "valid_table ht"
    and ins: "insert_ht malloc_ok strdup_ok ht key v = Inr (ok, ht')"
  obtains (overwrite) updated where
      "insert_scan (ht_array ht ! bucket_no ht key) key v = Some updated" "ok"
      "ht' = ht\<lparr>ht_array := (ht_array ht)[bucket_no ht key := updated]\<rparr>"
  | (failed) "insert_scan (ht_array ht ! bucket_no ht key) key v = None" "\<not> ok" "ht' = ht"
  | (added) "insert_scan (ht_array ht ! bucket_no ht key) key v = None" "ok"
      "sint (ht_size ht) \<noteq> 2147483647"
      "ht' = ht\<lparr>ht_array := (ht_array ht)[bucket_no ht key :=
                 \<lparr>kv_key = strdup key, kv_value = v\<rparr> # ht_array ht ! bucket_no ht key],
               ht_size := ht_size ht + 1\<rparr>"
proof (cases "insert_scan (ht_array ht ! bucket_no ht key) key v")
  case (Some updated)
  then have "insert_ht malloc_ok strdup_ok ht key v =
      Inr (True, ht\<lparr>ht_array := (ht_array ht)[bucket_no ht key := updated]\<rparr>)"
    by (simp add: insert_valid_shape [OF valid_shape [OF v]])
  with ins have "ok" "ht' = ht\<lparr>ht_array := (ht_array ht)[bucket_no ht key := updated]\<rparr>"
    by simp_all
  with Some show ?thesis by (rule overwrite)
next
  case None
  show ?thesis
  proof (cases "malloc_ok \<and> strdup_ok")
    case False
    with None have "insert_ht malloc_ok strdup_ok ht key v = Inr (False, ht)"
      by (auto simp: insert_valid_shape [OF valid_shape [OF v]])
    with ins have "\<not> ok" "ht' = ht" by simp_all
    with None show ?thesis by (rule failed)
  next
    case True
    show ?thesis
    proof (cases "sint (ht_size ht) = 2147483647")
      case max: True
      with None True have "insert_ht malloc_ok strdup_ok ht key v = Inl SignedOverflow"
        by (simp add: insert_valid_shape [OF valid_shape [OF v]])
      with ins show ?thesis by simp
    next
      case nmax: False
      with None True have "insert_ht malloc_ok strdup_ok ht key v =
          Inr (True, ht\<lparr>ht_array := (ht_array ht)[bucket_no ht key :=
                 \<lparr>kv_key = strdup key, kv_value = v\<rparr> # ht_array ht ! bucket_no ht key],
               ht_size := ht_size ht + 1\<rparr>)"
        by (simp add: insert_valid_shape [OF valid_shape [OF v]])
      with ins have "ok" "ht' = ht\<lparr>ht_array := (ht_array ht)[bucket_no ht key :=
                 \<lparr>kv_key = strdup key, kv_value = v\<rparr> # ht_array ht ! bucket_no ht key],
               ht_size := ht_size ht + 1\<rparr>"
        by simp_all
      with None nmax show ?thesis using added by blast
    qed
  qed
qed

lemma delete_valid_cases:
  assumes v: "valid_table ht" and del: "delete ht key = Inr (ok, ht')"
  obtains (absent) "delete_scan (ht_array ht ! bucket_no ht key) key = None" "\<not> ok" "ht' = ht"
  | (removed) unlinked where
      "delete_scan (ht_array ht ! bucket_no ht key) key = Some unlinked" "ok"
      "sint (ht_size ht) \<noteq> - 2147483648"
      "ht' = ht\<lparr>ht_array := (ht_array ht)[bucket_no ht key := unlinked],
               ht_size := ht_size ht - 1\<rparr>"
proof (cases "delete_scan (ht_array ht ! bucket_no ht key) key")
  case None
  then have "delete ht key = Inr (False, ht)"
    by (simp add: delete_valid_shape [OF valid_shape [OF v]])
  with del have "\<not> ok" "ht' = ht" by simp_all
  with None show ?thesis by (rule absent)
next
  case (Some unlinked)
  show ?thesis
  proof (cases "sint (ht_size ht) = - 2147483648")
    case True
    with Some have "delete ht key = Inl SignedOverflow"
      by (simp add: delete_valid_shape [OF valid_shape [OF v]])
    with del show ?thesis by simp
  next
    case False
    with Some have "delete ht key =
        Inr (True, ht\<lparr>ht_array := (ht_array ht)[bucket_no ht key := unlinked],
               ht_size := ht_size ht - 1\<rparr>)"
      by (simp add: delete_valid_shape [OF valid_shape [OF v]])
    with del have "ok" "ht' = ht\<lparr>ht_array := (ht_array ht)[bucket_no ht key := unlinked],
               ht_size := ht_size ht - 1\<rparr>"
      by simp_all
    with Some False show ?thesis using removed by blast
  qed
qed

subsection \<open>Lookup after an operation\<close>

lemma get_valid:
  "valid_table ht \<Longrightarrow> get ht key = Inr (get_scan (ht_array ht ! bucket_no ht key) key)"
  by (rule get_valid_shape [OF valid_shape])

lemma insert_capacity:
  "insert_ht malloc_ok strdup_ok ht key v = Inr (ok, ht')
     \<Longrightarrow> ht_capacity ht' = ht_capacity ht \<and> length (ht_array ht') = length (ht_array ht)"
  by (auto simp: insert_ht_def split: sum.splits option.splits if_splits)

lemma delete_capacity:
  "delete ht key = Inr (ok, ht')
     \<Longrightarrow> ht_capacity ht' = ht_capacity ht \<and> length (ht_array ht') = length (ht_array ht)"
  by (auto simp: delete_def split: sum.splits option.splits if_splits)

lemma valid_size_nonneg: "valid_table ht \<Longrightarrow> 0 \<le> sint (ht_size ht)"
  by (simp add: valid_table_def)

lemma get_after_insert_same:
  assumes v: "valid_table ht"
    and ins: "insert_ht malloc_ok strdup_ok ht key v = Inr (True, ht')"
  shows "get ht' key = Inr v"
proof -
  let ?b = "bucket_no ht key"
  have b: "?b < length (ht_array ht)" by (rule valid_bucket_no_less [OF v])
  have v': "valid_table ht'" by (rule insert_preserves_valid [OF v ins])
  from v ins have "bucket_no ht' key = ?b \<and> get_scan (ht_array ht' ! ?b) key = v"
  proof (cases rule: insert_valid_cases)
    case (overwrite updated)
    with b insert_scan_get_same [OF overwrite(1)] show ?thesis by simp
  next
    case failed
    then show ?thesis by simp
  next
    case added
    with b show ?thesis by (simp add: strcmp_0_iff strdup_def)
  qed
  with get_valid [OF v', of key] show ?thesis by simp
qed

lemma get_after_insert_other:
  assumes v: "valid_table ht"
    and ins: "insert_ht malloc_ok strdup_ok ht key' v' = Inr (ok, ht')"
    and ne: "cstr key' \<noteq> cstr key"
  shows "get ht' key = get ht key"
proof -
  let ?b = "bucket_no ht key'"
  have b: "?b < length (ht_array ht)" by (rule valid_bucket_no_less [OF v])
  have v': "valid_table ht'" by (rule insert_preserves_valid [OF v ins])
  from v ins
  have "bucket_no ht' key = bucket_no ht key
      \<and> get_scan (ht_array ht' ! bucket_no ht key) key
          = get_scan (ht_array ht ! bucket_no ht key) key"
  proof (cases rule: insert_valid_cases)
    case (overwrite updated)
    show ?thesis
    proof (cases "bucket_no ht key = ?b")
      case True
      with overwrite(3) b insert_scan_get_other [OF overwrite(1) ne] show ?thesis by simp
    next
      case False
      with overwrite(3) show ?thesis by simp
    qed
  next
    case failed
    then show ?thesis by simp
  next
    case added
    show ?thesis
    proof (cases "bucket_no ht key = ?b")
      case True
      with added(4) b ne show ?thesis by (simp add: strcmp_0_iff strdup_def)
    next
      case False
      with added(4) show ?thesis by simp
    qed
  qed
  with get_valid [OF v', of key] get_valid [OF v, of key] show ?thesis by simp
qed

lemma get_after_delete_other:
  assumes v: "valid_table ht"
    and del: "delete ht key' = Inr (ok, ht')"
    and ne: "cstr key' \<noteq> cstr key"
  shows "get ht' key = get ht key"
proof -
  let ?b = "bucket_no ht key'"
  have b: "?b < length (ht_array ht)" by (rule valid_bucket_no_less [OF v])
  have v': "valid_table ht'" by (rule delete_preserves_valid [OF v del])
  from v del
  have "bucket_no ht' key = bucket_no ht key
      \<and> get_scan (ht_array ht' ! bucket_no ht key) key
          = get_scan (ht_array ht ! bucket_no ht key) key"
  proof (cases rule: delete_valid_cases)
    case absent
    then show ?thesis by simp
  next
    case (removed unlinked)
    show ?thesis
    proof (cases "bucket_no ht key = ?b")
      case True
      with removed(4) b delete_scan_get_other [OF removed(1) ne] show ?thesis by simp
    next
      case False
      with removed(4) show ?thesis by simp
    qed
  qed
  with get_valid [OF v', of key] get_valid [OF v, of key] show ?thesis by simp
qed

lemma run_op_other:
  assumes v: "valid_table ht" and r: "run_op ht x = Inr ht'"
    and w: "\<not> writes_key key x"
  shows "valid_table ht' \<and> get ht' key = get ht key"
proof (cases x)
  case (Insert malloc_ok strdup_ok key' v')
  with r obtain ok where ins: "insert_ht malloc_ok strdup_ok ht key' v' = Inr (ok, ht')"
    by (auto split: sum.splits)
  from w Insert have "cstr key' \<noteq> cstr key" by (simp add: strcmp_0_iff)
  with insert_preserves_valid [OF v ins] get_after_insert_other [OF v ins]
  show ?thesis by simp
next
  case (Get key')
  with r have "ht' = ht" by (auto split: sum.splits)
  with v show ?thesis by simp
next
  case (Delete key')
  with r obtain ok where del: "delete ht key' = Inr (ok, ht')"
    by (auto split: sum.splits)
  from w Delete have "cstr key' \<noteq> cstr key" by (simp add: strcmp_0_iff)
  with delete_preserves_valid [OF v del] get_after_delete_other [OF v del]
  show ?thesis by simp
qed

lemma run_ops_other:
  assumes "valid_table ht" and "run_ops ht ops = Inr ht'"
    and "\<forall>x \<in> set ops. \<not> writes_key key x"
  shows "valid_table ht' \<and> get ht' key = get ht key"
  using assms
proof (induction ops arbitrary: ht)
  case Nil
  then show ?case by simp
next
  case (Cons x ops)
  from Cons.prems(2) obtain ht1 where s: "run_op ht x = Inr ht1" "run_ops ht1 ops = Inr ht'"
    by (auto split: sum.splits)
  from Cons.prems(3) have w: "\<not> writes_key key x" "\<forall>x \<in> set ops. \<not> writes_key key x"
    by simp_all
  from run_op_other [OF Cons.prems(1) s(1) w(1)]
  have v1: "valid_table ht1" and g1: "get ht1 key = get ht key" by simp_all
  from Cons.IH [OF v1 s(2) w(2)] g1 show ?case by simp
qed

subsection \<open>Uniqueness of keys and reachable tables\<close>

lemma entries_bucket:
  assumes "e \<in> set (entries ht)"
  shows "\<exists>i < length (ht_array ht). e \<in> set (ht_array ht ! i)"
proof -
  from assms obtain ch where ch: "ch \<in> set (ht_array ht)" "e \<in> set ch"
    by (auto simp: entries_def)
  from ch(1) obtain i where "i < length (ht_array ht)" "ht_array ht ! i = ch"
    by (auto simp: in_set_conv_nth)
  with ch(2) show ?thesis by blast
qed

lemma contains_after_insert:
  assumes v: "valid_table ht"
    and ins: "insert_ht malloc_ok strdup_ok ht key v = Inr (True, ht')"
  shows "contains ht' key"
proof -
  let ?b = "bucket_no ht key"
  have b: "?b < length (ht_array ht)" by (rule valid_bucket_no_less [OF v])
  have v': "valid_table ht'" by (rule insert_preserves_valid [OF v ins])
  from v ins
  have "bucket_no ht' key = ?b
      \<and> (\<exists>e \<in> set (ht_array ht' ! ?b). cstr (kv_key e) = cstr key)"
  proof (cases rule: insert_valid_cases)
    case (overwrite updated)
    from insert_scan_Some [OF overwrite(1)] obtain pre e post where
      "updated = pre @ e\<lparr>kv_value := v\<rparr> # post" "cstr (kv_key e) = cstr key" by blast
    then have "\<exists>x \<in> set updated. cstr (kv_key x) = cstr key" by auto
    with overwrite(3) b show ?thesis by simp
  next
    case failed
    then show ?thesis by simp
  next
    case added
    with b show ?thesis by (simp add: strdup_def)
  qed
  then show ?thesis by (simp add: contains_iff_bucket [OF v'])
qed

lemma distinct_concat_buckets:
  assumes "\<forall>i < length xs. distinct (map f (xs ! i))"
    and "\<forall>i < length xs. \<forall>j < length xs. i \<noteq> j \<longrightarrow> f ` set (xs ! i) \<inter> f ` set (xs ! j) = {}"
  shows "distinct (map f (concat xs))"
  using assms
proof (induction xs)
  case Nil
  show ?case by simp
next
  case (Cons x xs)
  have d0: "distinct (map f x)" using Cons.prems(1) by auto
  have d1: "\<forall>i < length xs. distinct (map f (xs ! i))"
    using Cons.prems(1) by auto
  have d2: "\<forall>i < length xs. \<forall>j < length xs. i \<noteq> j \<longrightarrow>
      f ` set (xs ! i) \<inter> f ` set (xs ! j) = {}"
  proof (intro allI impI)
    fix i j assume "i < length xs" "j < length xs" "i \<noteq> j"
    then have "Suc i < length (x # xs)" "Suc j < length (x # xs)" "Suc i \<noteq> Suc j"
      by simp_all
    with Cons.prems(2)
    have "f ` set ((x # xs) ! Suc i) \<inter> f ` set ((x # xs) ! Suc j) = {}" by blast
    then show "f ` set (xs ! i) \<inter> f ` set (xs ! j) = {}" by simp
  qed
  have d3: "f ` set x \<inter> f ` set (concat xs) = {}"
  proof -
    have "f ` set x \<inter> f ` set ys = {}" if "ys \<in> set xs" for ys
    proof -
      from that obtain j where j: "j < length xs" "xs ! j = ys"
        by (auto simp: in_set_conv_nth)
      then have "0 < length (x # xs)" "Suc j < length (x # xs)" "0 \<noteq> Suc j" by simp_all
      with Cons.prems(2)
      have "f ` set ((x # xs) ! 0) \<inter> f ` set ((x # xs) ! Suc j) = {}" by blast
      with j(2) show ?thesis by simp
    qed
    then show ?thesis by auto
  qed
  from Cons.IH [OF d1 d2] d0 d3 show ?case by simp
qed

lemma valid_unique_keys:
  assumes v: "valid_table ht"
  shows "unique_keys ht"
proof -
  let ?f = "\<lambda>e. cstr (kv_key e)"
  have d: "\<forall>i < length (ht_array ht). distinct (map ?f (ht_array ht ! i))"
    using valid_chain_distinct [OF v] by blast
  have "\<forall>i < length (ht_array ht). \<forall>j < length (ht_array ht). i \<noteq> j \<longrightarrow>
      ?f ` set (ht_array ht ! i) \<inter> ?f ` set (ht_array ht ! j) = {}"
  proof (intro allI impI)
    fix i j assume ij: "i < length (ht_array ht)" "j < length (ht_array ht)" "i \<noteq> j"
    show "?f ` set (ht_array ht ! i) \<inter> ?f ` set (ht_array ht ! j) = {}"
    proof (rule ccontr)
      assume "?f ` set (ht_array ht ! i) \<inter> ?f ` set (ht_array ht ! j) \<noteq> {}"
      then obtain a c where ac: "a \<in> set (ht_array ht ! i)" "c \<in> set (ht_array ht ! j)"
        "cstr (kv_key a) = cstr (kv_key c)" by auto
      from valid_placed [OF v ij(1) ac(1)] valid_placed [OF v ij(2) ac(2)]
        bucket_no_cong [OF ac(3), of ht]
      have "i = j" by simp
      with ij(3) show False by simp
    qed
  qed
  from distinct_concat_buckets [OF d this] show ?thesis
    by (simp add: unique_keys_def entries_def)
qed

lemma no_buckets_insert:
  "ht_array ht = [] \<Longrightarrow> insert_ht malloc_ok strdup_ok ht key v \<noteq> Inr r"
  by (simp add: insert_ht_def bucket_at_def split: sum.split)

lemma no_buckets_delete:
  "ht_array ht = [] \<Longrightarrow> delete ht key \<noteq> Inr r"
  by (simp add: delete_def bucket_at_def split: sum.split)

lemma reachable_invariant:
  "reachable ht \<Longrightarrow>
     (if 0 < sint (ht_capacity ht) then valid_table ht else ht_array ht = [])"
proof (induction rule: reachable.induct)
  case (created malloc_ht malloc_array cap ht)
  show ?case
  proof (cases "0 < sint cap")
    case True
    from created_valid [OF True created] created True show ?thesis
      by (auto simp: createHashTable_eq split: if_splits)
  next
    case False
    with created show ?thesis by (auto simp: createHashTable_eq split: if_splits)
  qed
next
  case (inserted ht malloc_ok strdup_ok key v ok ht')
  show ?case
  proof (cases "0 < sint (ht_capacity ht)")
    case True
    with inserted.IH have v: "valid_table ht" by simp
    from insert_preserves_valid [OF v inserted.hyps(2)] insert_capacity [OF inserted.hyps(2)]
      True
    show ?thesis by simp
  next
    case False
    with inserted.IH have "ht_array ht = []" by simp
    from no_buckets_insert [OF this] inserted.hyps(2) show ?thesis by blast
  qed
next
  case (deleted ht key ok ht')
  show ?case
  proof (cases "0 < sint (ht_capacity ht)")
    case True
    with deleted.IH have v: "valid_table ht" by simp
    from delete_preserves_valid [OF v deleted.hyps(2)] delete_capacity [OF deleted.hyps(2)]
      True
    show ?thesis by simp
  next
    case False
    with deleted.IH have "ht_array ht = []" by simp
    from no_buckets_delete [OF this] deleted.hyps(2) show ?thesis by blast
  qed
qed

lemma reachable_valid:
  "reachable ht \<Longrightarrow> 0 < sint (ht_capacity ht) \<Longrightarrow> valid_table ht"
  using reachable_invariant [of ht] by simp

lemma usage_table_reachable: "reachable usage_table"
proof -
  let ?t0 = "\<lparr>ht_capacity = 2, ht_array = [[], []], ht_size = 0\<rparr>"
  let ?t1 = "\<lparr>ht_capacity = 2,
              ht_array = [[], [\<lparr>kv_key = key1, kv_value = Addr 100\<rparr>]], ht_size = 1\<rparr>"
  let ?t2 = "\<lparr>ht_capacity = 2,
              ht_array = [[\<lparr>kv_key = key2, kv_value = Addr 200\<rparr>],
                          [\<lparr>kv_key = key1, kv_value = Addr 100\<rparr>]], ht_size = 2\<rparr>"
  have "createHashTable True True 2 = Some ?t0"
    by (simp add: createHashTable_eq numeral_2_eq_2)
  then have r0: "reachable ?t0" by (rule reachable.created)
  have "insert_ht True True ?t0 key1 (Addr 100) = Inr (True, ?t1)"
    by (simp add: insert_ht_def usage_eval strdup_def)
  with r0 have r1: "reachable ?t1" by (rule reachable.inserted)
  have "insert_ht True True ?t1 key2 (Addr 200) = Inr (True, ?t2)"
    by (simp add: insert_ht_def usage_eval strdup_def)
  with r1 have r2: "reachable ?t2" by (rule reachable.inserted)
  have "insert_ht True True ?t2 key3 (Addr 300) = Inr (True, usage_table)"
    by (simp add: insert_ht_def usage_eval strdup_def)
  with r2 show ?thesis by (rule reachable.inserted)
qed

section \<open>The properties\<close>

text \<open>
  C1, as the code has it. \<open>createHashTable\<close> does not look at the capacity and has no
  failure but \<open>NULL\<close>. With a negative capacity no table is produced: the request for
  the bucket array is too large and \<open>NULL\<close> is returned, as for any failed allocation.
  With capacity 0 it fails only when an allocation fails; when both allocations succeed
  it returns a table of capacity 0 with no bucket and \<open>size\<close> 0.
\<close>

theorem createHashTable_nonpositive:
  assumes "sint cap \<le> 0"
  shows "createHashTable malloc_ht malloc_array cap =
           (if cap = 0 \<and> malloc_ht \<and> malloc_array
            then Some \<lparr>ht_capacity = 0, ht_array = [], ht_size = 0\<rparr>
            else None)"
proof (cases "cap = 0")
  case True
  then show ?thesis by (simp add: createHashTable_eq)
next
  case False
  then have "sint cap \<noteq> 0" by (simp only: signed_eq_0_iff) simp
  with assms have "sint cap < 0" by simp
  with False show ?thesis by (simp add: createHashTable_eq)
qed

theorem createHashTable_nonpositive_witness:
  "sint (- 3 :: c_int) \<le> 0
   \<and> createHashTable True True (- 3) = None
   \<and> sint (0 :: c_int) \<le> 0
   \<and> createHashTable True False 0 = None
   \<and> createHashTable True True 0 = Some \<lparr>ht_capacity = 0, ht_array = [], ht_size = 0\<rparr>"
  using createHashTable_nonpositive [of "- 3" True True]
    createHashTable_nonpositive [of 0 True False]
    createHashTable_nonpositive [of 0 True True]
  by simp

text \<open>
  C1, as stated, fails at capacity 0 when both allocations succeed: a table is produced.
\<close>

theorem createHashTable_zero_capacity:
  "sint (0 :: c_int) \<le> 0
   \<and> createHashTable True True 0 = Some \<lparr>ht_capacity = 0, ht_array = [], ht_size = 0\<rparr>"
  by (simp add: createHashTable_eq)

text \<open>
  C2. In a valid table, after an \<open>insert\<close> of \<open>key\<close> with value \<open>v\<close> that returns true,
  and after any further sequence of operations that runs and neither inserts nor
  deletes \<open>key\<close>, \<open>get\<close> of \<open>key\<close> returns \<open>v\<close>. The table before the insert is any
  valid table, so whatever was inserted earlier.
\<close>

theorem insert_then_get:
  assumes "valid_table ht"
    and "insert_ht malloc_ok strdup_ok ht key v = Inr (True, ht1)"
    and "\<forall>x \<in> set ops. \<not> writes_key key x"
    and "run_ops ht1 ops = Inr ht2"
  shows "get ht2 key = Inr v"
proof -
  have v1: "valid_table ht1" by (rule insert_preserves_valid [OF assms(1,2)])
  have "get ht1 key = Inr v" by (rule get_after_insert_same [OF assms(1,2)])
  with run_ops_other [OF v1 assms(4,3)] show ?thesis by simp
qed

theorem insert_then_get_witness:
  "valid_table usage_table
   \<and> insert_ht True True usage_table key1 (Addr 111) =
       Inr (True, usage_table\<lparr>ht_array :=
          [[\<lparr>kv_key = key2, kv_value = Addr 200\<rparr>],
           [\<lparr>kv_key = key3, kv_value = Addr 300\<rparr>,
            \<lparr>kv_key = key1, kv_value = Addr 111\<rparr>]]\<rparr>)
   \<and> \<not> writes_key key1 (Delete key3)
   \<and> \<not> writes_key key1 (Insert True True key2 NULL)
   \<and> \<not> writes_key key1 (Get key1)
   \<and> run_ops (usage_table\<lparr>ht_array :=
          [[\<lparr>kv_key = key2, kv_value = Addr 200\<rparr>],
           [\<lparr>kv_key = key3, kv_value = Addr 300\<rparr>,
            \<lparr>kv_key = key1, kv_value = Addr 111\<rparr>]]\<rparr>)
        [Delete key3, Insert True True key2 NULL, Get key1] =
       Inr \<lparr>ht_capacity = 2,
            ht_array = [[\<lparr>kv_key = key2, kv_value = NULL\<rparr>],
                        [\<lparr>kv_key = key1, kv_value = Addr 111\<rparr>]],
            ht_size = 2\<rparr>
   \<and> get \<lparr>ht_capacity = 2,
            ht_array = [[\<lparr>kv_key = key2, kv_value = NULL\<rparr>],
                        [\<lparr>kv_key = key1, kv_value = Addr 111\<rparr>]],
            ht_size = 2\<rparr> key1 = Inr (Addr 111)"
proof -
  let ?t1 = "usage_table\<lparr>ht_array :=
          [[\<lparr>kv_key = key2, kv_value = Addr 200\<rparr>],
           [\<lparr>kv_key = key3, kv_value = Addr 300\<rparr>,
            \<lparr>kv_key = key1, kv_value = Addr 111\<rparr>]]\<rparr>"
  let ?t2 = "\<lparr>ht_capacity = 2,
            ht_array = [[\<lparr>kv_key = key2, kv_value = NULL\<rparr>],
                        [\<lparr>kv_key = key1, kv_value = Addr 111\<rparr>]],
            ht_size = 2\<rparr>"
  let ?ops = "[Delete key3, Insert True True key2 NULL, Get key1]"
  have h1: "valid_table usage_table" by (rule usage_table_valid)
  have h2: "insert_ht True True usage_table key1 (Addr 111) = Inr (True, ?t1)"
    by (simp add: insert_ht_def usage_eval)
  have w: "\<not> writes_key key1 (Delete key3)"
    "\<not> writes_key key1 (Insert True True key2 NULL)" "\<not> writes_key key1 (Get key1)"
    by (simp_all add: usage_eval)
  then have h3: "\<forall>x \<in> set ?ops. \<not> writes_key key1 x" by simp
  have h4: "run_ops ?t1 ?ops = Inr ?t2"
    by (simp add: delete_def insert_ht_def get_def usage_eval)
  from insert_then_get [OF h1 h2 h3 h4] h1 h2 w h4 show ?thesis by blast
qed

text \<open>
  C3. In a valid table that contains \<open>key\<close>, \<open>insert\<close> of \<open>key\<close> with \<open>v2\<close> returns true
  whatever the allocator would do: the first entry of the key's chain whose key compares
  equal keeps its key and its place and gets the value \<open>v2\<close>, nothing else in the
  table changes, in particular not \<open>size\<close>, and \<open>get\<close> of \<open>key\<close> then returns \<open>v2\<close>.
\<close>

theorem insert_existing_key:
  assumes "valid_table ht" and "contains ht key"
  shows "\<exists>ht' pre e post.
           insert_ht malloc_ok strdup_ok ht key v2 = Inr (True, ht')
           \<and> ht_array ht ! bucket_no ht key = pre @ e # post
           \<and> strcmp (kv_key e) key = 0
           \<and> ht' = ht\<lparr>ht_array :=
                  (ht_array ht)[bucket_no ht key := pre @ e\<lparr>kv_value := v2\<rparr> # post]\<rparr>
           \<and> ht_size ht' = ht_size ht
           \<and> map kv_key (entries ht') = map kv_key (entries ht)
           \<and> get ht' key = Inr v2"
proof -
  let ?b = "bucket_no ht key"
  let ?ch = "ht_array ht ! ?b"
  have b: "?b < length (ht_array ht)" by (rule valid_bucket_no_less [OF assms(1)])
  from assms have "\<exists>e \<in> set ?ch. cstr (kv_key e) = cstr key"
    by (simp add: contains_iff_bucket)
  then have "insert_scan ?ch key v2 \<noteq> None" by (simp add: insert_scan_None_iff)
  then obtain updated where u: "insert_scan ?ch key v2 = Some updated" by blast
  from insert_scan_Some [OF u] obtain pre e post where
    s: "?ch = pre @ e # post" "updated = pre @ e\<lparr>kv_value := v2\<rparr> # post"
       "cstr (kv_key e) = cstr key" by blast
  let ?ht' = "ht\<lparr>ht_array := (ht_array ht)[?b := pre @ e\<lparr>kv_value := v2\<rparr> # post]\<rparr>"
  have ins: "insert_ht malloc_ok strdup_ok ht key v2 = Inr (True, ?ht')"
    using u s(2) by (simp add: insert_valid_shape [OF valid_shape [OF assms(1)]])
  have g: "get ?ht' key = Inr v2" by (rule get_after_insert_same [OF assms(1) ins])
  have "map (map kv_key) ((ht_array ht)[?b := updated]) = map (map kv_key) (ht_array ht)"
    using insert_scan_keys [OF u] b by (simp add: map_update list_update_same_conv)
  then have k: "map kv_key (entries ?ht') = map kv_key (entries ht)"
    using s(2) by (simp add: entries_def map_concat)
  have m: "strcmp (kv_key e) key = 0" using s(3) by (simp add: strcmp_0_iff)
  have sz: "ht_size ?ht' = ht_size ht" by simp
  from ins s(1) m sz k g show ?thesis by blast
qed

theorem insert_existing_key_witness:
  "valid_table usage_table \<and> contains usage_table key1
   \<and> (\<exists>ht' pre e post.
         insert_ht False False usage_table key1 (Addr 111) = Inr (True, ht')
         \<and> ht_array usage_table ! bucket_no usage_table key1 = pre @ e # post
         \<and> strcmp (kv_key e) key1 = 0
         \<and> ht' = usage_table\<lparr>ht_array := (ht_array usage_table)
                  [bucket_no usage_table key1 := pre @ e\<lparr>kv_value := Addr 111\<rparr> # post]\<rparr>
         \<and> ht_size ht' = ht_size usage_table
         \<and> map kv_key (entries ht') = map kv_key (entries usage_table)
         \<and> get ht' key1 = Inr (Addr 111))"
proof -
  have h1: "valid_table usage_table" by (rule usage_table_valid)
  have h2: "contains usage_table key1"
    by (simp add: contains_def entries_def usage_eval)
  from insert_existing_key [OF h1 h2, of False False "Addr 111"] h1 h2
  show ?thesis by blast
qed

text \<open>
  C4. In a valid table that contains \<open>key\<close>, \<open>delete\<close> of \<open>key\<close> returns true, \<open>size\<close>
  is one less than before, and afterwards the table does not contain \<open>key\<close> and \<open>get\<close>
  of \<open>key\<close> returns \<open>NULL\<close>, its not-found result.
\<close>

theorem delete_present_key:
  assumes "valid_table ht" and "contains ht key"
  shows "\<exists>ht'. delete ht key = Inr (True, ht')
           \<and> sint (ht_size ht') = sint (ht_size ht) - 1
           \<and> \<not> contains ht' key
           \<and> get ht' key = Inr NULL"
proof -
  let ?b = "bucket_no ht key"
  let ?ch = "ht_array ht ! ?b"
  have b: "?b < length (ht_array ht)" by (rule valid_bucket_no_less [OF assms(1)])
  from assms have "\<exists>e \<in> set ?ch. cstr (kv_key e) = cstr key"
    by (simp add: contains_iff_bucket)
  then have "delete_scan ?ch key \<noteq> None" by (simp add: delete_scan_None_iff)
  then obtain unlinked where u: "delete_scan ?ch key = Some unlinked" by blast
  have nmin: "sint (ht_size ht) \<noteq> - 2147483648"
    using valid_size_nonneg [OF assms(1)] by simp
  let ?ht' = "ht\<lparr>ht_array := (ht_array ht)[?b := unlinked], ht_size := ht_size ht - 1\<rparr>"
  have del: "delete ht key = Inr (True, ?ht')"
    using u nmin by (simp add: delete_valid_shape [OF valid_shape [OF assms(1)]])
  have v': "valid_table ?ht'" by (rule delete_preserves_valid [OF assms(1) del])
  have "unlinked = filter (\<lambda>e. cstr (kv_key e) \<noteq> cstr key) ?ch"
    by (rule delete_scan_filter [OF u valid_chain_distinct [OF assms(1) b]])
  then have gone: "\<forall>e \<in> set unlinked. cstr (kv_key e) \<noteq> cstr key" by simp
  have ch': "ht_array ?ht' ! bucket_no ?ht' key = unlinked" using b by simp
  have nc: "\<not> contains ?ht' key"
    using gone by (simp only: contains_iff_bucket [OF v'] ch') simp
  have g: "get ?ht' key = Inr NULL"
    using get_scan_absent [OF gone] by (simp only: get_valid [OF v'] ch')
  have "sint (ht_size ?ht') = sint (ht_size ht) - 1"
    using sint_pred [OF nmin] by simp
  with del nc g show ?thesis by blast
qed

theorem delete_present_key_witness:
  "valid_table usage_table \<and> contains usage_table key1
   \<and> (\<exists>ht'. delete usage_table key1 = Inr (True, ht')
         \<and> sint (ht_size ht') = sint (ht_size usage_table) - 1
         \<and> \<not> contains ht' key1
         \<and> get ht' key1 = Inr NULL)"
proof -
  have h1: "valid_table usage_table" by (rule usage_table_valid)
  have h2: "contains usage_table key1"
    by (simp add: contains_def entries_def usage_eval)
  from delete_present_key [OF h1 h2] h1 h2 show ?thesis by blast
qed

text \<open>
  C5. Every table a caller can obtain, from \<open>createHashTable\<close> and then by \<open>insert\<close> and
  \<open>delete\<close> (\<open>get\<close> changes nothing), holds each key string in at most one entry.
\<close>

theorem reachable_unique_keys:
  assumes "reachable ht"
  shows "unique_keys ht"
proof (cases "0 < sint (ht_capacity ht)")
  case True
  with reachable_invariant [OF assms] have "valid_table ht" by simp
  then show ?thesis by (rule valid_unique_keys)
next
  case False
  with reachable_invariant [OF assms] have "ht_array ht = []" by simp
  then show ?thesis by (simp add: unique_keys_def entries_def)
qed

theorem reachable_unique_keys_witness:
  "reachable \<lparr>ht_capacity = 2,
              ht_array = [[], [\<lparr>kv_key = key3, kv_value = Addr 300\<rparr>,
                               \<lparr>kv_key = key1, kv_value = Addr 111\<rparr>]],
              ht_size = 2\<rparr>
   \<and> unique_keys \<lparr>ht_capacity = 2,
              ht_array = [[], [\<lparr>kv_key = key3, kv_value = Addr 300\<rparr>,
                               \<lparr>kv_key = key1, kv_value = Addr 111\<rparr>]],
              ht_size = 2\<rparr>"
proof -
  let ?t0 = "\<lparr>ht_capacity = 2, ht_array = [[], []], ht_size = 0\<rparr>"
  let ?t1 = "\<lparr>ht_capacity = 2,
              ht_array = [[], [\<lparr>kv_key = key1, kv_value = Addr 100\<rparr>]], ht_size = 1\<rparr>"
  let ?t2 = "\<lparr>ht_capacity = 2,
              ht_array = [[\<lparr>kv_key = key2, kv_value = Addr 200\<rparr>],
                          [\<lparr>kv_key = key1, kv_value = Addr 100\<rparr>]], ht_size = 2\<rparr>"
  let ?t3 = "\<lparr>ht_capacity = 2,
              ht_array = [[\<lparr>kv_key = key2, kv_value = Addr 200\<rparr>],
                          [\<lparr>kv_key = key3, kv_value = Addr 300\<rparr>,
                           \<lparr>kv_key = key1, kv_value = Addr 100\<rparr>]], ht_size = 3\<rparr>"
  let ?t4 = "\<lparr>ht_capacity = 2,
              ht_array = [[\<lparr>kv_key = key2, kv_value = Addr 200\<rparr>],
                          [\<lparr>kv_key = key3, kv_value = Addr 300\<rparr>,
                           \<lparr>kv_key = key1, kv_value = Addr 111\<rparr>]], ht_size = 3\<rparr>"
  let ?t5 = "\<lparr>ht_capacity = 2,
              ht_array = [[], [\<lparr>kv_key = key3, kv_value = Addr 300\<rparr>,
                               \<lparr>kv_key = key1, kv_value = Addr 111\<rparr>]], ht_size = 2\<rparr>"
  have "createHashTable True True 2 = Some ?t0"
    by (simp add: createHashTable_eq numeral_2_eq_2)
  then have r0: "reachable ?t0" by (rule reachable.created)
  have "insert_ht True True ?t0 key1 (Addr 100) = Inr (True, ?t1)"
    by (simp add: insert_ht_def usage_eval strdup_def)
  with r0 have r1: "reachable ?t1" by (rule reachable.inserted)
  have "insert_ht True True ?t1 key2 (Addr 200) = Inr (True, ?t2)"
    by (simp add: insert_ht_def usage_eval strdup_def)
  with r1 have r2: "reachable ?t2" by (rule reachable.inserted)
  have "insert_ht True True ?t2 key3 (Addr 300) = Inr (True, ?t3)"
    by (simp add: insert_ht_def usage_eval strdup_def)
  with r2 have r3: "reachable ?t3" by (rule reachable.inserted)
  have "insert_ht True True ?t3 key1 (Addr 111) = Inr (True, ?t4)"
    by (simp add: insert_ht_def usage_eval strdup_def)
  with r3 have r4: "reachable ?t4" by (rule reachable.inserted)
  have "delete ?t4 key2 = Inr (True, ?t5)"
    by (simp add: delete_def usage_eval)
  with r4 have r5: "reachable ?t5" by (rule reachable.deleted)
  from reachable_unique_keys [OF r5] r5 show ?thesis by blast
qed

text \<open>
  C6. In a table with a positive capacity and that many buckets, the bucket index of
  every key is \<open>hash(key) mod capacity\<close> and lies in \<open>[0, capacity)\<close>; the access to
  the bucket array is in bounds, and neither \<open>get\<close> nor \<open>insert\<close> nor \<open>delete\<close> leaves
  the array or divides by zero.
\<close>

theorem getIndex_in_bounds:
  assumes "0 < sint (ht_capacity ht)"
    and "length (ht_array ht) = nat (sint (ht_capacity ht))"
  shows "\<exists>idx. getIndex ht key = Inr idx
           \<and> sint idx = uint (hash key) mod sint (ht_capacity ht)
           \<and> 0 \<le> sint idx \<and> sint idx < sint (ht_capacity ht)
           \<and> bucket_at ht idx = Inr (ht_array ht ! nat (sint idx))
           \<and> get ht key \<notin> {Inl OutOfBounds, Inl DivisionByZero}
           \<and> insert_ht malloc_ok strdup_ok ht key v \<notin> {Inl OutOfBounds, Inl DivisionByZero}
           \<and> delete ht key \<notin> {Inl OutOfBounds, Inl DivisionByZero}"
proof -
  from getIndex_pos [OF assms(1), of key] obtain idx where
    idx: "getIndex ht key = Inr idx" "sint idx = uint (hash key) mod sint (ht_capacity ht)"
    by blast
  from bucket_lookup [OF assms, of key] idx(1)
  have b: "bucket_at ht idx = Inr (ht_array ht ! nat (sint idx))" by auto
  have r: "0 \<le> sint idx" "sint idx < sint (ht_capacity ht)"
    using idx(2) assms(1) by simp_all
  have g: "get ht key \<notin> {Inl OutOfBounds, Inl DivisionByZero}"
    by (simp add: get_valid_shape [OF assms])
  have i: "insert_ht malloc_ok strdup_ok ht key v \<notin> {Inl OutOfBounds, Inl DivisionByZero}"
    by (simp add: insert_valid_shape [OF assms] split: option.split)
  have d: "delete ht key \<notin> {Inl OutOfBounds, Inl DivisionByZero}"
    by (simp add: delete_valid_shape [OF assms] split: option.split)
  from idx b r g i d show ?thesis by blast
qed

theorem getIndex_in_bounds_witness:
  "0 < sint (ht_capacity usage_table)
   \<and> length (ht_array usage_table) = nat (sint (ht_capacity usage_table))
   \<and> (\<exists>idx. getIndex usage_table key3 = Inr idx
         \<and> sint idx = uint (hash key3) mod sint (ht_capacity usage_table)
         \<and> 0 \<le> sint idx \<and> sint idx < sint (ht_capacity usage_table)
         \<and> bucket_at usage_table idx = Inr (ht_array usage_table ! nat (sint idx))
         \<and> get usage_table key3 \<notin> {Inl OutOfBounds, Inl DivisionByZero}
         \<and> insert_ht True True usage_table key3 NULL \<notin> {Inl OutOfBounds, Inl DivisionByZero}
         \<and> delete usage_table key3 \<notin> {Inl OutOfBounds, Inl DivisionByZero})"
proof -
  have h1: "0 < sint (ht_capacity usage_table)"
    by (simp add: usage_table_def)
  have h2: "length (ht_array usage_table) = nat (sint (ht_capacity usage_table))"
    by (simp add: usage_table_def)
  from getIndex_in_bounds [OF h1 h2, of key3 True True NULL] h1 h2
  show ?thesis by blast
qed

text \<open>
  C7, as the code has it. The hash is a function of the bytes of the key alone: the
  accumulator starts at 5381 and each byte of the string, in order, makes it
  \<open>accumulator * 33 + c\<close>, wrapping around at 64 bits, where \<open>c\<close> is the byte read as
  a signed \<open>char\<close>: a byte of 128 or more counts as the byte minus 256. For a key with
  all bytes below 128 that is the fold over the byte values, \<open>djb2\<close>. The hash of the
  empty string is 5381. Being a function of the string, the hash gives the same value
  for the same input.
\<close>

theorem hash_is_signed_djb2:
  "hash [] = 5381
   \<and> hash key = foldl (\<lambda>accumulator c. accumulator * 33 + scast c) 5381 (cstr key)
   \<and> uint (hash_loop accumulator [c]) =
       (if c = 0 then uint accumulator else (uint accumulator * 33 + sint c) mod 2 ^ 64)
   \<and> ((\<forall>b \<in> set (cstr key). b < 128) \<longrightarrow> hash key = djb2 (cstr key))"
proof -
  have e: "hash [] = 5381" by (simp add: hash_def)
  have f: "hash key = foldl (\<lambda>accumulator c. accumulator * 33 + scast c) 5381 (cstr key)"
    by (simp only: hash_def hash_loop_foldl)
  have s: "uint (hash_loop accumulator [c]) =
       (if c = 0 then uint accumulator else (uint accumulator * 33 + sint c) mod 2 ^ 64)"
    by (simp only: hash_loop_Cons hash_loop.simps uint_djb2_step if_distrib [of uint])
  from e f s hash_low_bytes [of key] show ?thesis by blast
qed

theorem hash_is_signed_djb2_witness:
  "hash [] = 5381
   \<and> hash [107, 255] = 5863439
   \<and> uint (hash_loop 5381 [255]) = 177572
   \<and> list_all (\<lambda>b. b < 128) (cstr key1)
   \<and> hash key1 = djb2 (cstr key1)
   \<and> hash key1 = 6385400191"
proof -
  have l: "\<forall>b \<in> set (cstr key1). b < 128"
    by (simp only: cstr_key1) (simp add: key1_def)
  then have l': "list_all (\<lambda>b. b < 128) (cstr key1)" by (simp only: list_all_iff)
  from hash_is_signed_djb2 [of key1 0 0] l have a: "hash key1 = djb2 (cstr key1)" by blast
  from hash_is_signed_djb2 [of "[]" 5381 255]
  have "uint (hash_loop 5381 [255]) =
      (if (255 :: byte) = 0 then uint (5381 :: c_ulong)
       else (uint (5381 :: c_ulong) * 33 + sint (255 :: byte)) mod 2 ^ 64)" by blast
  then have b: "uint (hash_loop 5381 [255]) = 177572" by simp
  have c: "hash [107, 255] = 5863439" by (simp add: hash_def)
  have d: "hash [] = 5381" by (simp add: hash_def)
  from a b c d l' hash_key1 show ?thesis by blast
qed

text \<open>
  C7, as stated, fails at the one-byte key 255: the code adds the byte as \<open>-1\<close>, the
  fold over the byte values adds 255.
\<close>

theorem hash_high_byte:
  "hash [255] = 177572 \<and> djb2 (cstr [255]) = 177828"
  by (simp add: hash_def djb2_def cstr_Cons)

text \<open>
  C8, as the code has it. In a table with a positive capacity and that many buckets
  that does not contain \<open>key\<close>, \<open>delete\<close> of \<open>key\<close> returns false and the table
  afterwards is the table before: the same \<open>size\<close>, buckets and entries.
\<close>

theorem delete_absent_key:
  assumes "0 < sint (ht_capacity ht)"
    and "length (ht_array ht) = nat (sint (ht_capacity ht))"
    and "\<not> contains ht key"
  shows "delete ht key = Inr (False, ht)"
proof -
  have "bucket_no ht key < length (ht_array ht)"
    using bucket_no_less [OF assms(1), of key] assms(2) by simp
  then have "ht_array ht ! bucket_no ht key \<in> set (ht_array ht)" by simp
  then have "set (ht_array ht ! bucket_no ht key) \<subseteq> set (entries ht)"
    by (auto simp: entries_def)
  with assms(3)
  have "\<forall>e \<in> set (ht_array ht ! bucket_no ht key). cstr (kv_key e) \<noteq> cstr key"
    by (auto simp: contains_iff)
  then have "delete_scan (ht_array ht ! bucket_no ht key) key = None"
    by (simp add: delete_scan_None_iff)
  then show ?thesis
    by (simp add: delete_valid_shape [OF assms(1,2)])
qed

theorem delete_absent_key_witness:
  "0 < sint (ht_capacity usage_table)
   \<and> length (ht_array usage_table) = nat (sint (ht_capacity usage_table))
   \<and> \<not> contains usage_table [107, 101, 121, 52]
   \<and> delete usage_table [107, 101, 121, 52] = Inr (False, usage_table)"
proof -
  have h1: "0 < sint (ht_capacity usage_table)" by (simp add: usage_table_def)
  have h2: "length (ht_array usage_table) = nat (sint (ht_capacity usage_table))"
    by (simp add: usage_table_def)
  have h3: "\<not> contains usage_table [107, 101, 121, 52]"
    by (simp add: contains_def entries_def usage_table_def key1_def key2_def key3_def)
  from delete_absent_key [OF h1 h2 h3] h1 h2 h3 show ?thesis by blast
qed

text \<open>
  C8, as stated, fails on the table that \<open>createHashTable\<close> returns for capacity 0:
  it contains no key, and \<open>delete\<close> divides by zero in \<open>getIndex\<close>.
\<close>

theorem delete_zero_capacity:
  "createHashTable True True 0 = Some \<lparr>ht_capacity = 0, ht_array = [], ht_size = 0\<rparr>
   \<and> \<not> contains \<lparr>ht_capacity = 0, ht_array = [], ht_size = 0\<rparr> key1
   \<and> delete \<lparr>ht_capacity = 0, ht_array = [], ht_size = 0\<rparr> key1 = Inl DivisionByZero"
  by (simp add: createHashTable_eq contains_def entries_def delete_def getIndex_def)

text \<open>
  C9, as the code has it. In a table of positive capacity that a caller can obtain,
  \<open>get\<close> returns \<open>NULL\<close> for a key the table does not contain, and the stored value
  pointer for a key it contains. So once \<open>NULL\<close> has been stored under a key, the table
  contains the key and \<open>get\<close> still returns \<open>NULL\<close>, the very result it gives for a
  key that is absent.
\<close>

theorem get_null_ambiguity:
  assumes "reachable ht" and "0 < sint (ht_capacity ht)"
  shows "(\<not> contains ht key \<longrightarrow> get ht key = Inr NULL)
       \<and> (\<forall>e \<in> set (entries ht). strcmp (kv_key e) key = 0 \<longrightarrow> get ht key = Inr (kv_value e))
       \<and> (\<forall>ht'. insert_ht malloc_ok strdup_ok ht key NULL = Inr (True, ht')
             \<longrightarrow> contains ht' key \<and> get ht' key = Inr NULL)"
proof (intro conjI impI ballI allI)
  have v: "valid_table ht" by (rule reachable_valid [OF assms])
  {
    assume "\<not> contains ht key"
    with v
    have "\<forall>e \<in> set (ht_array ht ! bucket_no ht key). cstr (kv_key e) \<noteq> cstr key"
      by (simp add: contains_iff_bucket)
    from get_scan_absent [OF this] show "get ht key = Inr NULL"
      by (simp add: get_valid [OF v])
  next
    fix e assume e: "e \<in> set (entries ht)" "strcmp (kv_key e) key = 0"
    then have m: "cstr (kv_key e) = cstr key" by (simp add: strcmp_0_iff)
    from entries_bucket [OF e(1)]
    obtain i where i: "i < length (ht_array ht)" "e \<in> set (ht_array ht ! i)" by blast
    from valid_placed [OF v i] bucket_no_cong [OF m, of ht]
    have "i = bucket_no ht key" by simp
    with i have b: "bucket_no ht key < length (ht_array ht)"
      and "e \<in> set (ht_array ht ! bucket_no ht key)" by simp_all
    from get_scan_present [OF valid_chain_distinct [OF v b] this(2) m]
    show "get ht key = Inr (kv_value e)" by (simp add: get_valid [OF v])
  next
    fix ht' assume "insert_ht malloc_ok strdup_ok ht key NULL = Inr (True, ht')"
    then show "contains ht' key" by (rule contains_after_insert [OF v])
  next
    fix ht' assume "insert_ht malloc_ok strdup_ok ht key NULL = Inr (True, ht')"
    then show "get ht' key = Inr NULL" by (rule get_after_insert_same [OF v])
  }
qed

theorem get_null_ambiguity_witness:
  "reachable usage_table \<and> 0 < sint (ht_capacity usage_table)
   \<and> \<not> contains usage_table [107, 101, 121, 52]
   \<and> get usage_table [107, 101, 121, 52] = Inr NULL
   \<and> \<lparr>kv_key = key1, kv_value = Addr 100\<rparr> \<in> set (entries usage_table)
   \<and> strcmp (kv_key \<lparr>kv_key = key1, kv_value = Addr 100\<rparr>) key1 = 0
   \<and> get usage_table key1 = Inr (Addr 100)
   \<and> insert_ht True True usage_table key1 NULL =
       Inr (True, usage_table\<lparr>ht_array :=
          [[\<lparr>kv_key = key2, kv_value = Addr 200\<rparr>],
           [\<lparr>kv_key = key3, kv_value = Addr 300\<rparr>,
            \<lparr>kv_key = key1, kv_value = NULL\<rparr>]]\<rparr>)
   \<and> contains (usage_table\<lparr>ht_array :=
          [[\<lparr>kv_key = key2, kv_value = Addr 200\<rparr>],
           [\<lparr>kv_key = key3, kv_value = Addr 300\<rparr>,
            \<lparr>kv_key = key1, kv_value = NULL\<rparr>]]\<rparr>) key1
   \<and> get (usage_table\<lparr>ht_array :=
          [[\<lparr>kv_key = key2, kv_value = Addr 200\<rparr>],
           [\<lparr>kv_key = key3, kv_value = Addr 300\<rparr>,
            \<lparr>kv_key = key1, kv_value = NULL\<rparr>]]\<rparr>) key1 = Inr NULL"
proof -
  let ?e = "\<lparr>kv_key = key1, kv_value = Addr 100\<rparr>"
  let ?t = "usage_table\<lparr>ht_array :=
          [[\<lparr>kv_key = key2, kv_value = Addr 200\<rparr>],
           [\<lparr>kv_key = key3, kv_value = Addr 300\<rparr>,
            \<lparr>kv_key = key1, kv_value = NULL\<rparr>]]\<rparr>"
  have h0: "reachable usage_table" by (rule usage_table_reachable)
  have h1: "0 < sint (ht_capacity usage_table)" by (simp add: usage_table_def)
  have h2: "\<not> contains usage_table [107, 101, 121, 52]"
    by (simp add: contains_def entries_def usage_table_def key1_def key2_def key3_def)
  have h3: "?e \<in> set (entries usage_table)"
    by (simp add: entries_def usage_table_def)
  have h4: "strcmp (kv_key ?e) key1 = 0" by (simp add: strcmp_0_iff)
  have h5: "insert_ht True True usage_table key1 NULL = Inr (True, ?t)"
    by (simp add: insert_ht_def usage_eval)
  from get_null_ambiguity [OF h0 h1, of "[107, 101, 121, 52]" True True] h2
  have a: "get usage_table [107, 101, 121, 52] = Inr NULL" by blast
  from get_null_ambiguity [OF h0 h1, of key1 True True] h3 h4 h5
  have b: "get usage_table key1 = Inr (kv_value ?e)" "contains ?t key1"
    "get ?t key1 = Inr NULL" by blast+
  from h0 h1 h2 a h3 h4 b h5 show ?thesis by simp
qed

text \<open>
  C9, as stated, fails on the table that \<open>createHashTable\<close> returns for capacity 0:
  it contains no key, and \<open>get\<close> divides by zero in \<open>getIndex\<close> instead of returning
  \<open>NULL\<close>.
\<close>

theorem get_zero_capacity:
  "createHashTable True True 0 = Some \<lparr>ht_capacity = 0, ht_array = [], ht_size = 0\<rparr>
   \<and> \<not> contains \<lparr>ht_capacity = 0, ht_array = [], ht_size = 0\<rparr> key1
   \<and> get \<lparr>ht_capacity = 0, ht_array = [], ht_size = 0\<rparr> key1 = Inl DivisionByZero"
  by (simp add: createHashTable_eq contains_def entries_def get_def getIndex_def)

text \<open>
  C10. In a valid table that contains \<open>key\<close>, \<open>delete\<close> of \<open>key\<close> takes one entry, whose
  key compares equal, out of the key's chain: the entries before it and the entries
  after it stay, in the order they had, so that the chain afterwards is the chain
  before without the entries of that key. Every other bucket keeps its chain.
\<close>

theorem delete_keeps_order:
  assumes "valid_table ht" and "contains ht key"
  shows "\<exists>ht' pre e post.
           delete ht key = Inr (True, ht')
           \<and> ht_array ht ! bucket_no ht key = pre @ e # post
           \<and> strcmp (kv_key e) key = 0
           \<and> ht_array ht' = (ht_array ht)[bucket_no ht key := pre @ post]
           \<and> ht_array ht' ! bucket_no ht key =
               filter (\<lambda>x. strcmp (kv_key x) key \<noteq> 0) (ht_array ht ! bucket_no ht key)
           \<and> length (ht_array ht') = length (ht_array ht)
           \<and> (\<forall>j < length (ht_array ht).
                 j \<noteq> bucket_no ht key \<longrightarrow> ht_array ht' ! j = ht_array ht ! j)"
proof -
  let ?b = "bucket_no ht key"
  let ?ch = "ht_array ht ! ?b"
  have b: "?b < length (ht_array ht)" by (rule valid_bucket_no_less [OF assms(1)])
  from assms have "\<exists>e \<in> set ?ch. cstr (kv_key e) = cstr key"
    by (simp add: contains_iff_bucket)
  then have "delete_scan ?ch key \<noteq> None" by (simp add: delete_scan_None_iff)
  then obtain unlinked where u: "delete_scan ?ch key = Some unlinked" by blast
  from delete_scan_Some [OF u] obtain pre e post where
    s: "?ch = pre @ e # post" "unlinked = pre @ post" "cstr (kv_key e) = cstr key"
    by blast
  have nmin: "sint (ht_size ht) \<noteq> - 2147483648"
    using valid_size_nonneg [OF assms(1)] by simp
  let ?ht' = "ht\<lparr>ht_array := (ht_array ht)[?b := pre @ post], ht_size := ht_size ht - 1\<rparr>"
  have del: "delete ht key = Inr (True, ?ht')"
    using u nmin s(2) by (simp add: delete_valid_shape [OF valid_shape [OF assms(1)]])
  have m: "strcmp (kv_key e) key = 0" using s(3) by (simp add: strcmp_0_iff)
  have arr: "ht_array ?ht' = (ht_array ht)[?b := pre @ post]" by simp
  have "unlinked = filter (\<lambda>x. cstr (kv_key x) \<noteq> cstr key) ?ch"
    by (rule delete_scan_filter [OF u valid_chain_distinct [OF assms(1) b]])
  with s(2) b
  have f: "ht_array ?ht' ! ?b = filter (\<lambda>x. strcmp (kv_key x) key \<noteq> 0) ?ch"
    by (simp add: strcmp_0_iff)
  have len: "length (ht_array ?ht') = length (ht_array ht)" by simp
  have others: "\<forall>j < length (ht_array ht). j \<noteq> ?b \<longrightarrow> ht_array ?ht' ! j = ht_array ht ! j"
    by simp
  from del s(1) m arr f len others show ?thesis by blast
qed

theorem delete_keeps_order_witness:
  "valid_table usage_table \<and> contains usage_table key3
   \<and> (\<exists>ht' pre e post.
         delete usage_table key3 = Inr (True, ht')
         \<and> ht_array usage_table ! bucket_no usage_table key3 = pre @ e # post
         \<and> strcmp (kv_key e) key3 = 0
         \<and> ht_array ht' = (ht_array usage_table)[bucket_no usage_table key3 := pre @ post]
         \<and> ht_array ht' ! bucket_no usage_table key3 =
             filter (\<lambda>x. strcmp (kv_key x) key3 \<noteq> 0)
               (ht_array usage_table ! bucket_no usage_table key3)
         \<and> length (ht_array ht') = length (ht_array usage_table)
         \<and> (\<forall>j < length (ht_array usage_table).
               j \<noteq> bucket_no usage_table key3 \<longrightarrow> ht_array ht' ! j = ht_array usage_table ! j))
   \<and> delete usage_table key3 =
       Inr (True, \<lparr>ht_capacity = 2,
                   ht_array = [[\<lparr>kv_key = key2, kv_value = Addr 200\<rparr>],
                               [\<lparr>kv_key = key1, kv_value = Addr 100\<rparr>]],
                   ht_size = 2\<rparr>)"
proof -
  have h1: "valid_table usage_table" by (rule usage_table_valid)
  have h2: "contains usage_table key3"
    by (simp add: contains_def entries_def usage_eval)
  have r: "delete usage_table key3 =
       Inr (True, \<lparr>ht_capacity = 2,
                   ht_array = [[\<lparr>kv_key = key2, kv_value = Addr 200\<rparr>],
                               [\<lparr>kv_key = key1, kv_value = Addr 100\<rparr>]],
                   ht_size = 2\<rparr>)"
    by (simp add: delete_def usage_eval)
  from delete_keeps_order [OF h1 h2] h1 h2 r show ?thesis by blast
qed

end
